theory Spec2Isabelle
  imports Main
begin

section \<open>Python strings\<close>

text \<open>
  A Python \<open>str\<close> is modelled as a \<open>string\<close> whose characters are code points below 256.
  The functions of this section are the \<open>str\<close> methods the preprocessor calls.
\<close>

text \<open>\<open>str.isspace\<close> on one character: TAB, LF, VT, FF, CR, FS, GS, RS, US, space, NEL, NBSP.\<close>

definition isspace :: "char \<Rightarrow> bool" where
  "isspace c = (of_char c \<in> {9::nat, 10, 11, 12, 13, 28, 29, 30, 31, 32, 133, 160})"

text \<open>\<open>s.strip()\<close>: leading and trailing whitespace removed.\<close>

definition strip :: "string \<Rightarrow> string" where
  "strip s = rev (dropWhile isspace (rev (dropWhile isspace s)))"

text \<open>\<open>s.startswith(p)\<close>.\<close>

definition startswith :: "string \<Rightarrow> string \<Rightarrow> bool" where
  "startswith s p = (take (length p) s = p)"

text \<open>\<open>sub in s\<close>: \<open>sub\<close> occurs in \<open>s\<close> as a contiguous substring.\<close>

fun contains :: "string \<Rightarrow> string \<Rightarrow> bool" where
  "contains sub [] = (sub = [])"
| "contains sub (x # xs) = (startswith (x # xs) sub \<or> contains sub xs)"

text \<open>
  \<open>s.replace(old, new)\<close>: the occurrences of \<open>old\<close> are found from left to right, each search
  resuming after the end of the previous occurrence. With an empty \<open>old\<close>, \<open>new\<close> is inserted
  before every character and at the end.
\<close>

fun replace_scan :: "string \<Rightarrow> string \<Rightarrow> string \<Rightarrow> string" where
  "replace_scan old new [] = []"
| "replace_scan old new (x # xs) =
     (if startswith (x # xs) old
      then new @ replace_scan old new (drop (length old - 1) xs)
      else x # replace_scan old new xs)"

definition replace :: "string \<Rightarrow> string \<Rightarrow> string \<Rightarrow> string" where
  "replace s old new =
     (if old = [] then new @ concat (map (\<lambda>c. c # new) s) else replace_scan old new s)"

text \<open>
  \<open>s.split(sep)\<close> for a non-empty \<open>sep\<close> (both call sites pass a literal): the pieces of \<open>s\<close>
  between the occurrences of \<open>sep\<close>, found from left to right; \<open>acc\<close> is the piece being read.
\<close>

fun split_scan :: "string \<Rightarrow> string \<Rightarrow> string \<Rightarrow> string list" where
  "split_scan sep acc [] = [acc]"
| "split_scan sep acc (x # xs) =
     (if startswith (x # xs) sep
      then acc # split_scan sep [] (drop (length sep - 1) xs)
      else split_scan sep (acc @ [x]) xs)"

definition split :: "string \<Rightarrow> string \<Rightarrow> string list" where
  "split s sep = split_scan sep [] s"

section \<open>Errors and Python objects\<close>

text \<open>The exceptions the script can raise; none is caught anywhere.\<close>

datatype error = KeyError | ValueError | SyntaxError | FileNotFoundError

text \<open>
  The two kinds of object that meet in the comparison of \<open>checkConditionFromLine\<close>: a \<open>str\<close>,
  and the \<open>ast.Module\<close> that \<open>ast.parse\<close> returns (its tree is of type \<open>'m\<close>).
\<close>

datatype 'm pyobj = PyStr string | PyModule 'm

text \<open>
  \<open>a == b\<close> with a \<open>str\<close> on the left: \<open>str.__eq__\<close> compares two strings by content and is
  \<open>NotImplemented\<close> for any other operand; \<open>ast.AST\<close> defines no \<open>__eq__\<close>, so the comparison
  falls back to identity, and a string is never the same object as a module.
\<close>

fun str_eq :: "string \<Rightarrow> 'm pyobj \<Rightarrow> bool" where
  "str_eq s (PyStr t) = (s = t)"
| "str_eq s (PyModule m) = False"

section \<open>The tables of the script\<close>

definition COCOHUE :: string where
  "COCOHUE = ''CoCoHue - Hue Bridge Integration''"

definition ALL_TARGET_NAMES :: "(string \<times> string) list" where
  "ALL_TARGET_NAMES = [(''COCOHUE'', COCOHUE)]"

definition driverFiles :: "string list" where
  "driverFiles =
    [''cocohue-bridge-driver.groovy'',
     ''cocohue-button-driver.groovy'',
     ''cocohue-ct-bulb-driver.groovy'',
     ''cocohue-dimmable-bulb-driver.groovy'',
     ''cocohue-group-driver.groovy'',
     ''cocohue-motion-sensor-driver.groovy'',
     ''cocohue-plug-driver.groovy'',
     ''cocohue-rgb-bulb-driver.groovy'',
     ''cocohue-rgbw-bulb-driver.groovy'',
     ''cocohue-scene-driver.groovy'']"

definition appFiles :: "string list" where
  "appFiles = [''cocohue-app.groovy'']"

definition libraries :: "(string \<times> string) list" where
  "libraries =
    [(''RMoRobert.CoCoHue_Bri_Lib'', ''cocohue-library-bri.groovy''),
     (''RMoRobert.CoCoHue_Common_Lib'', ''cocohue-library-common.groovy''),
     (''RMoRobert.CoCoHue_Constants_Lib'', ''cocohue-library-constants.groovy''),
     (''RMoRobert.CoCoHue_CT_Lib'', ''cocohue-library-ct.groovy''),
     (''RMoRobert.CoCoHue_Effect_Lib'', ''cocohue-library-effect.groovy''),
     (''RMoRobert.CoCoHue_Flash_Lib'', ''cocohue-library-flash.groovy''),
     (''RMoRobert.CoCoHue_HueSat_Lib'', ''cocohue-library-huesat.groovy'')]"

text \<open>A dict keeps its keys in insertion order, so \<open>CONSTANTS\<close> is an association list.\<close>

definition CONSTANTS :: "(string \<times> (string \<times> string) list) list" where
  "CONSTANTS =
    [(''__APP_NAME__'', [(COCOHUE, ''CoCoHue - Hue Bridge Integration'')]),
     (''__APP_DESCRIPTION__'', [(COCOHUE,
        ''Community-created Philips Hue integration for Hue Bridge lights and other Hue devices and features'')]),
     (''__DOCUMENTATION_LINK__'', [(COCOHUE,
        ''https://community.hubitat.com/t/release-cocohue-hue-bridge-integration-including-scenes/27978'')]),
     (''__NAMESPACE__'', [(COCOHUE, ''RMoRobert'')]),
     (''__DNI_PREFIX__'', [(COCOHUE, ''CCH'')]),
     (''__DRIVER_NAME_BRIDGE__'', [(COCOHUE, ''CoCoHue Bridge'')]),
     (''__DRIVER_NAME_BUTTON__'', [(COCOHUE, ''CoCoHue Button'')]),
     (''__DRIVER_NAME_CT_BULB__'', [(COCOHUE, ''CoCoHue CT Bulb'')]),
     (''__DRIVER_NAME_DIMMABLE_BULB__'', [(COCOHUE, ''CoCoHue Dimmable Bulb'')]),
     (''__DRIVER_NAME_GROUP__'', [(COCOHUE, ''CoCoHue Group'')]),
     (''__DRIVER_NAME_MOTION__'', [(COCOHUE, ''CoCoHue Motion Sensor'')]),
     (''__DRIVER_NAME_PLUG__'', [(COCOHUE, ''CoCoHue Plug'')]),
     (''__DRIVER_NAME_RGBW_BULB__'', [(COCOHUE, ''CoCoHue RGBW Bulb'')]),
     (''__DRIVER_NAME_RGB_BULB__'', [(COCOHUE, ''CoCoHue RGB Bulb'')]),
     (''__DRIVER_NAME_SCENE__'', [(COCOHUE, ''CoCoHue Scene'')])]"

definition CONSTANT_KEYS :: "string list" where
  "CONSTANT_KEYS = map fst CONSTANTS"

definition DRIVER_DIR :: string where "DRIVER_DIR = ''drivers''"
definition APP_DIR :: string where "APP_DIR = ''apps''"
definition LIB_DIR :: string where "LIB_DIR = ''libraries''"

text \<open>\<open>d[k]\<close> on a dict: \<open>KeyError\<close> when the key is absent.\<close>

definition getitem :: "('k \<times> 'v) list \<Rightarrow> 'k \<Rightarrow> error + 'v" where
  "getitem d k = (case map_of d k of None \<Rightarrow> Inl KeyError | Some v \<Rightarrow> Inr v)"

section \<open>Conditions and constants\<close>

text \<open>
  \<open>checkConditionFromLine\<close>. The tuple assignment raises \<open>ValueError\<close> unless the split has
  exactly two pieces. The left operand of the comparison is evaluated first (two dict lookups),
  then \<open>ast.parse\<close>, which is outside the script: it is the parameter \<open>ast_parse\<close>, giving the
  module or the exception it raises.
\<close>

definition checkConditionFromLine ::
  "(string \<Rightarrow> error + 'm) \<Rightarrow> string \<Rightarrow> string \<Rightarrow> error + bool" where
  "checkConditionFromLine ast_parse line target =
     (let condition = strip (replace line ''#IF '' '''') in
      case split condition ''=='' of
        [lhs, rhs] \<Rightarrow>
          (case getitem CONSTANTS (strip lhs) of
             Inl e \<Rightarrow> Inl e
           | Inr byTarget \<Rightarrow>
               (case getitem byTarget target of
                  Inl e \<Rightarrow> Inl e
                | Inr val \<Rightarrow>
                    (case ast_parse (strip rhs) of
                       Inl e \<Rightarrow> Inl e
                     | Inr m \<Rightarrow> Inr (str_eq val (PyModule m)))))
      | _ \<Rightarrow> Inl ValueError)"

text \<open>
  The loop of \<open>processConstants\<close> over \<open>CONSTANT_KEYS\<close>: one lookup and one \<open>replace\<close> for each
  constant, in the order of the table.
\<close>

fun replaceConstants :: "string list \<Rightarrow> string \<Rightarrow> string \<Rightarrow> error + string" where
  "replaceConstants [] target newLine = Inr newLine"
| "replaceConstants (const # consts) target newLine =
     (case getitem CONSTANTS const of
        Inl e \<Rightarrow> Inl e
      | Inr byTarget \<Rightarrow>
          (case getitem byTarget target of
             Inl e \<Rightarrow> Inl e
           | Inr newVal \<Rightarrow> replaceConstants consts target (replace newLine const newVal)))"

definition processConstants :: "string \<Rightarrow> string \<Rightarrow> error + string" where
  "processConstants srcLine target =
     (if \<exists>c \<in> set CONSTANT_KEYS. contains c srcLine
      then replaceConstants CONSTANT_KEYS target srcLine
      else Inr srcLine)"

section \<open>Files and console\<close>

text \<open>
  The world the script acts on: the text files by path (a file's content is what text-mode
  reading gives, universal newlines applied), the lines printed so far, and the global counter
  \<open>totalProcessed\<close>.
\<close>

record world =
  files :: "string \<rightharpoonup> string"
  stdout :: "string list"
  totalProcessed :: int

text \<open>\<open>for line in f\<close>: the lines of a text, each with its newline; the last may have none.\<close>

fun lines_scan :: "string \<Rightarrow> string \<Rightarrow> string list" where
  "lines_scan acc [] = (if acc = [] then [] else [acc])"
| "lines_scan acc (x # xs) =
     (if x = CHR 0x0A then (acc @ [x]) # lines_scan [] xs else lines_scan (acc @ [x]) xs)"

definition readlines :: "string \<Rightarrow> string list" where
  "readlines text = lines_scan [] text"

text \<open>\<open>os.path.join(a, b)\<close> on POSIX, for two components.\<close>

definition path_join :: "string \<Rightarrow> string \<Rightarrow> string" where
  "path_join a b =
     (if startswith b ''/'' then b
      else if a = [] \<or> last a = CHR ''/'' then a @ b
      else a @ ''/'' @ b)"

text \<open>\<open>open(path, "r")\<close> followed by reading: \<open>FileNotFoundError\<close> when there is no such file.\<close>

definition open_read :: "(string \<rightharpoonup> string) \<Rightarrow> string \<Rightarrow> error + string" where
  "open_read fs path = (case fs path of None \<Rightarrow> Inl FileNotFoundError | Some text \<Rightarrow> Inr text)"

section \<open>Processing one file\<close>

text \<open>
  The local variables of \<open>processFile\<close>: the two flags, the library names collected, and the
  text written to \<open>newFile\<close> so far.
\<close>

record locals =
  inIf :: bool
  skipLines :: bool
  libNamesToInclude :: "string list"
  newFile :: string

text \<open>
  The body of the first loop, for one line of the source file. When the condition of an
  \<open>#IF\<close> line or a constant lookup raises, the exception leaves the function: the result is
  the error, and nothing is written for that line.
\<close>

definition sourceLine ::
  "(string \<Rightarrow> error + 'm) \<Rightarrow> string \<Rightarrow> locals \<Rightarrow> string \<Rightarrow> error + locals" where
  "sourceLine ast_parse target st line =
     (if startswith (strip line) ''#include'' \<and> \<not> skipLines st then
        Inr (st\<lparr>libNamesToInclude :=
                  libNamesToInclude st @ [strip (last (split line ''#include''))]\<rparr>)
      else if startswith (strip line) ''#IF '' then
        (case checkConditionFromLine ast_parse line target of
           Inl e \<Rightarrow> Inl e
         | Inr c \<Rightarrow> Inr (st\<lparr>inIf := True, skipLines := \<not> c\<rparr>))
      else if startswith (strip line) ''#ENDIF'' then
        Inr (st\<lparr>inIf := False, skipLines := False\<rparr>)
      else if \<not> (inIf st \<and> skipLines st) then
        (case processConstants line target of
           Inl e \<Rightarrow> Inl e
         | Inr s \<Rightarrow> Inr (st\<lparr>newFile := newFile st @ s\<rparr>))
      else Inr st)"

text \<open>The first loop. An error comes with the locals as they were before the failing line.\<close>

fun sourceLines ::
  "(string \<Rightarrow> error + 'm) \<Rightarrow> string \<Rightarrow> locals \<Rightarrow> string list \<Rightarrow> error \<times> locals + locals" where
  "sourceLines ast_parse target st [] = Inr st"
| "sourceLines ast_parse target st (line # rest) =
     (case sourceLine ast_parse target st line of
        Inl e \<Rightarrow> Inl (e, st)
      | Inr st' \<Rightarrow> sourceLines ast_parse target st' rest)"

text \<open>The body of the inner loop, for one line of a library: no \<open>#include\<close> branch.\<close>

definition libraryLine ::
  "(string \<Rightarrow> error + 'm) \<Rightarrow> string \<Rightarrow> locals \<Rightarrow> string \<Rightarrow> error + locals" where
  "libraryLine ast_parse target st line =
     (if startswith (strip line) ''#IF '' then
        (case checkConditionFromLine ast_parse line target of
           Inl e \<Rightarrow> Inl e
         | Inr c \<Rightarrow> Inr (st\<lparr>inIf := True, skipLines := \<not> c\<rparr>))
      else if startswith (strip line) ''#ENDIF'' then
        Inr (st\<lparr>inIf := False, skipLines := False\<rparr>)
      else if \<not> (inIf st \<and> skipLines st) then
        (case processConstants line target of
           Inl e \<Rightarrow> Inl e
         | Inr s \<Rightarrow> Inr (st\<lparr>newFile := newFile st @ s\<rparr>))
      else Inr st)"

fun libraryLines ::
  "(string \<Rightarrow> error + 'm) \<Rightarrow> string \<Rightarrow> locals \<Rightarrow> string list \<Rightarrow> error \<times> locals + locals" where
  "libraryLines ast_parse target st [] = Inr st"
| "libraryLines ast_parse target st (line # rest) =
     (case libraryLine ast_parse target st line of
        Inl e \<Rightarrow> Inl (e, st)
      | Inr st' \<Rightarrow> libraryLines ast_parse target st' rest)"

text \<open>The comment written before each library.\<close>

definition toPrepend :: "string \<Rightarrow> string" where
  "toPrepend libName =
     [CHR 0x0A, CHR 0x0A] @ ''// ~~~ IMPORTED FROM '' @ libName @ '' ~~~'' @ [CHR 0x0A]"

text \<open>
  The second loop, over the collected names: the registry lookup, the opening of the library
  file, the comment, then the library is copied or goes through the inner loop. The flags are
  the same variables as in the first loop and are not assigned between the loops.
\<close>

fun includeLibraries ::
  "(string \<Rightarrow> error + 'm) \<Rightarrow> (string \<rightharpoonup> string) \<Rightarrow> string \<Rightarrow> bool \<Rightarrow> locals \<Rightarrow> string list
     \<Rightarrow> error \<times> locals + locals" where
  "includeLibraries ast_parse fs target preprocessLibrary st [] = Inr st"
| "includeLibraries ast_parse fs target preprocessLibrary st (libName # rest) =
     (case getitem libraries libName of
        Inl e \<Rightarrow> Inl (e, st)
      | Inr libFileName \<Rightarrow>
          (case open_read fs (path_join LIB_DIR libFileName) of
             Inl e \<Rightarrow> Inl (e, st)
           | Inr libText \<Rightarrow>
               (let st1 = st\<lparr>newFile := newFile st @ toPrepend libName\<rparr> in
                if \<not> preprocessLibrary then
                  includeLibraries ast_parse fs target preprocessLibrary
                    (st1\<lparr>newFile := newFile st1 @ libText\<rparr>) rest
                else
                  (case libraryLines ast_parse target st1 (readlines libText) of
                     Inl err \<Rightarrow> Inl err
                   | Inr st2 \<Rightarrow>
                       includeLibraries ast_parse fs target preprocessLibrary st2 rest))))"

text \<open>
  The block under \<open>with open(sourceFile, "r") as ogFile\<close>: the source file is opened, then
  the two loops run one after the other on the same locals. \<open>fs\<close> is the files at that point.
\<close>

definition processFileBody ::
  "(string \<Rightarrow> error + 'm) \<Rightarrow> (string \<rightharpoonup> string) \<Rightarrow> string \<Rightarrow> string \<Rightarrow> bool
     \<Rightarrow> error \<times> locals + locals" where
  "processFileBody ast_parse fs sourceFile target preprocessLibrary =
     (let st0 = \<lparr>inIf = False, skipLines = False, libNamesToInclude = [], newFile = []\<rparr>
      in case open_read fs sourceFile of
           Inl e \<Rightarrow> Inl (e, st0)
         | Inr text \<Rightarrow>
             (case sourceLines ast_parse target st0 (readlines text) of
                Inl err \<Rightarrow> Inl err
              | Inr st \<Rightarrow>
                  includeLibraries ast_parse fs target preprocessLibrary st
                    (libNamesToInclude st)))"

text \<open>
  \<open>processFile\<close>. The destination is removed if it is there and created empty by
  \<open>open(destFile, "a+")\<close>; the source and the libraries are read from the files as they are
  then. What is written reaches the destination when \<open>newFile\<close> is closed; on an exception
  it is what was written up to there (the interpreter flushes the open file when it exits),
  and the result is the error with that world.
\<close>

definition processFile ::
  "(string \<Rightarrow> error + 'm) \<Rightarrow> string \<Rightarrow> string \<Rightarrow> string \<Rightarrow> bool \<Rightarrow> world \<Rightarrow> error \<times> world + world" where
  "processFile ast_parse sourceFile destFile target preprocessLibrary w =
     (let w1 = w\<lparr>stdout := stdout w @ [''  PROCESSING: '' @ sourceFile @ '' -> '' @ destFile]\<rparr>;
          fs1 = (if files w1 destFile \<noteq> None then (files w1)(destFile := None) else files w1);
          fs2 = fs1(destFile \<mapsto> []);
          close = (\<lambda>st. w1\<lparr>files := fs2(destFile \<mapsto> newFile st)\<rparr>)
      in case processFileBody ast_parse fs2 sourceFile target preprocessLibrary of
           Inl (e, st) \<Rightarrow> Inl (e, close st)
         | Inr st \<Rightarrow> Inr (close st))"

section \<open>Apps, drivers and the entry point\<close>

text \<open>The loops of \<open>processApps\<close> and \<open>processDrivers\<close>: one \<open>processFile\<close> and one count each.\<close>

fun processAll ::
  "(string \<Rightarrow> error + 'm) \<Rightarrow> string \<Rightarrow> string \<Rightarrow> string \<Rightarrow> string list \<Rightarrow> world
     \<Rightarrow> error \<times> world + world" where
  "processAll ast_parse srcDir outDir target [] w = Inr w"
| "processAll ast_parse srcDir outDir target (file # rest) w =
     (case processFile ast_parse (path_join srcDir file) (path_join outDir file) target True w of
        Inl err \<Rightarrow> Inl err
      | Inr w' \<Rightarrow>
          processAll ast_parse srcDir outDir target rest
            (w'\<lparr>totalProcessed := totalProcessed w' + 1\<rparr>))"

definition processApps ::
  "(string \<Rightarrow> error + 'm) \<Rightarrow> string \<Rightarrow> world \<Rightarrow> error \<times> world + world" where
  "processApps ast_parse target w =
     processAll ast_parse APP_DIR (path_join ''full'' ''cocohue'') target appFiles w"

definition processDrivers ::
  "(string \<Rightarrow> error + 'm) \<Rightarrow> string \<Rightarrow> world \<Rightarrow> error \<times> world + world" where
  "processDrivers ast_parse target w =
     processAll ast_parse DRIVER_DIR (path_join ''full'' ''cocohue'') target driverFiles w"

text \<open>\<open>str(n)\<close> for an integer, as the f-string of \<open>main\<close> prints the counter.\<close>

fun str_nat :: "nat \<Rightarrow> string" where
  "str_nat n =
     (if n < 10 then [char_of (48 + n)] else str_nat (n div 10) @ [char_of (48 + n mod 10)])"

definition str_int :: "int \<Rightarrow> string" where
  "str_int i = (if i < 0 then ''-'' @ str_nat (nat (- i)) else str_nat (nat i))"

definition main :: "(string \<Rightarrow> error + 'm) \<Rightarrow> string \<Rightarrow> world \<Rightarrow> error \<times> world + world" where
  "main ast_parse target w =
     (let w1 = w\<lparr>stdout := stdout w @
                 [[CHR 0x0A] @ ''----------'' @ [CHR 0x0A] @ ''Processing for target: '' @ target
                  @ [CHR 0x0A] @ ''---------'' @ [CHR 0x0A]]\<rparr>
      in case processApps ast_parse target w1 of
           Inl err \<Rightarrow> Inl err
         | Inr w2 \<Rightarrow>
             (case processDrivers ast_parse target w2 of
                Inl err \<Rightarrow> Inl err
              | Inr w3 \<Rightarrow>
                  Inr (w3\<lparr>stdout := stdout w3 @
                         [[CHR 0x0A] @ ''Done. TOTAL: '' @ str_int (totalProcessed w3)
                          @ '' files processed.'']\<rparr>)))"

text \<open>\<open>list(ALL_TARGET_NAMES.keys())\<close> as an f-string prints it: the keys in single quotes.\<close>

definition target_names_repr :: string where
  "target_names_repr =
     ''['' @ concat (map (\<lambda>(i, k). (if i = 0 then [] else '', '') @ [CHR 0x27] @ k @ [CHR 0x27])
                      (enumerate 0 (map fst ALL_TARGET_NAMES))) @ '']''"

text \<open>The block under \<open>if __name__ == '__main__'\<close>, with \<open>sys.argv\<close> as a list.\<close>

definition script ::
  "(string \<Rightarrow> error + 'm) \<Rightarrow> string list \<Rightarrow> world \<Rightarrow> error \<times> world + world" where
  "script ast_parse argv w =
     (if length argv > 1 then
        (let tgt = argv ! 1 in
         if strip tgt \<in> set (map fst ALL_TARGET_NAMES) then
           (case getitem ALL_TARGET_NAMES (strip tgt) of
              Inl e \<Rightarrow> Inl (e, w)
            | Inr tgtVal \<Rightarrow> main ast_parse tgtVal w)
         else
           Inr (w\<lparr>stdout := stdout w @
                  [''Invalaid target specified: '' @ tgt @ ''. Should be one of: ''
                   @ target_names_repr]\<rparr>))
      else
        Inr (w\<lparr>stdout := stdout w @
               [''No target specified. Run script with parameter, e.g., COCOHUE. Possible parameters: ''
                @ target_names_repr]\<rparr>))"

section \<open>What substitution is to achieve\<close>

text \<open>
  The definitions of this section are not taken from the script. They say what the
  specification asks of the substitution of constants, so that \<open>processConstants\<close> can be
  compared with it.
\<close>

text \<open>The placeholders that have a value for a target, each with that value, in table order.\<close>

definition resolved :: "string \<Rightarrow> (string \<times> string) list" where
  "resolved target =
     concat (map (\<lambda>(c, byTarget). case map_of byTarget target of
                                      None \<Rightarrow> []
                                    | Some v \<Rightarrow> [(c, v)]) CONSTANTS)"

text \<open>
  One pass over the line from left to right: where a placeholder of the table starts, its value
  is put in its place and the pass goes on after the placeholder; any other character is kept.
\<close>

fun substitute :: "(string \<times> string) list \<Rightarrow> string \<Rightarrow> string" where
  "substitute tbl [] = []"
| "substitute tbl (x # xs) =
     (case find (\<lambda>(c, v). startswith (x # xs) c) tbl of
        Some (c, v) \<Rightarrow> v @ substitute tbl (drop (length c - 1) xs)
      | None \<Rightarrow> x # substitute tbl xs)"

text \<open>\<open>absent d n s\<close>: \<open>d\<close> starts at none of the first \<open>n\<close> positions of \<open>s\<close>.\<close>

fun absent :: "string \<Rightarrow> nat \<Rightarrow> string \<Rightarrow> bool" where
  "absent d 0 s = True"
| "absent d (Suc n) [] = True"
| "absent d (Suc n) (y # ys) = (\<not> startswith (y # ys) d \<and> absent d n ys)"

text \<open>
  The occurrences of placeholders in a line are separated when no two of them overlap: where
  one starts, no other starts at the same position, and none starts inside it.
\<close>

fun separated :: "string list \<Rightarrow> string \<Rightarrow> bool" where
  "separated keys [] = True"
| "separated keys (x # xs) =
     ((\<forall>c \<in> set keys.
         if startswith (x # xs) c
         then \<forall>d \<in> set keys. (if d = c then True else \<not> startswith (x # xs) d)
                               \<and> absent d (length c - 1) xs
         else True)
      \<and> separated keys xs)"

text \<open>
  A table is inert when substituting cannot make a placeholder appear: every placeholder begins
  and ends with an underscore, and no value has an underscore or occurs inside a placeholder.
\<close>

definition inert :: "(string \<times> string) list \<Rightarrow> bool" where
  "inert tbl =
     list_all (\<lambda>(c, v). c \<noteq> [] \<and> hd c = CHR ''_'' \<and> last c = CHR ''_'' \<and> CHR ''_'' \<notin> set v
                 \<and> list_all (\<lambda>(d, u). if length v \<le> length d then \<not> contains v d else True) tbl)
              tbl"

section \<open>What the first loop is to collect\<close>

text \<open>
  Not taken from the script either: the names of the \<open>#include\<close> lines of a file that stand
  outside the skipped blocks, in the order of the lines, a name as often as it is included.
  \<open>holds\<close> tells of an \<open>#IF\<close> line whether its condition holds, and \<open>skip\<close> whether a skipped
  block is open.
\<close>

fun collected :: "(string \<Rightarrow> bool) \<Rightarrow> bool \<Rightarrow> string list \<Rightarrow> string list" where
  "collected holds skip [] = []"
| "collected holds skip (l # ls) =
     (if startswith (strip l) ''#include'' \<and> \<not> skip
      then strip (last (split l ''#include'')) # collected holds skip ls
      else if startswith (strip l) ''#IF '' then collected holds (\<not> holds l) ls
      else if startswith (strip l) ''#ENDIF'' then collected holds False ls
      else collected holds skip ls)"

section \<open>Directive lines\<close>

lemma startswith_IF_not_include: "startswith s ''#IF '' \<Longrightarrow> \<not> startswith s ''#include''"
  by (cases s; cases "tl s") (auto simp: startswith_def)

lemma startswith_ENDIF_not_include: "startswith s ''#ENDIF'' \<Longrightarrow> \<not> startswith s ''#include''"
  by (cases s; cases "tl s") (auto simp: startswith_def)

lemma startswith_ENDIF_not_IF: "startswith s ''#ENDIF'' \<Longrightarrow> \<not> startswith s ''#IF ''"
  by (cases s; cases "tl s") (auto simp: startswith_def)

section \<open>The loops, piecewise\<close>

lemma sourceLines_append:
  "sourceLines ap target st (xs @ ys) =
     (case sourceLines ap target st xs of
        Inl e \<Rightarrow> Inl e
      | Inr st' \<Rightarrow> sourceLines ap target st' ys)"
  by (induction xs arbitrary: st) (auto split: sum.splits)

lemma libraryLines_append:
  "libraryLines ap target st (xs @ ys) =
     (case libraryLines ap target st xs of
        Inl e \<Rightarrow> Inl e
      | Inr st' \<Rightarrow> libraryLines ap target st' ys)"
  by (induction xs arbitrary: st) (auto split: sum.splits)

text \<open>While both flags are set, lines that are neither \<open>#IF\<close> nor \<open>#ENDIF\<close> change nothing.\<close>

lemma sourceLines_skipped:
  assumes "inIf st" "skipLines st"
    and "\<forall>l \<in> set body. \<not> startswith (strip l) ''#IF '' \<and> \<not> startswith (strip l) ''#ENDIF''"
  shows "sourceLines ap target st body = Inr st"
  using assms by (induction body) (auto simp: sourceLine_def)

lemma libraryLines_skipped:
  assumes "inIf st" "skipLines st"
    and "\<forall>l \<in> set body. \<not> startswith (strip l) ''#IF '' \<and> \<not> startswith (strip l) ''#ENDIF''"
  shows "libraryLines ap target st body = Inr st"
  using assms by (induction body) (auto simp: libraryLine_def)

section \<open>The condition of an \<open>#IF\<close> line\<close>

lemma checkCondition_never_True: "checkConditionFromLine ast_parse line target \<noteq> Inr True"
  by (auto simp: checkConditionFromLine_def Let_def split: list.splits sum.splits)

lemma checkCondition_returns:
  assumes "split (strip (replace line ''#IF '' '''')) ''=='' = [lhs, rhs]"
    and "map_of CONSTANTS (strip lhs) = Some byTarget"
    and "map_of byTarget target = Some val"
    and "ast_parse (strip rhs) = Inr m"
  shows "checkConditionFromLine ast_parse line target = Inr False"
  using assms by (simp add: checkConditionFromLine_def getitem_def)

lemma checkCondition_returns_iff:
  "(\<exists>c. checkConditionFromLine ast_parse line target = Inr c) \<longleftrightarrow>
     (\<exists>lhs rhs byTarget val m.
        split (strip (replace line ''#IF '' '''')) ''=='' = [lhs, rhs]
      \<and> map_of CONSTANTS (strip lhs) = Some byTarget
      \<and> map_of byTarget target = Some val
      \<and> ast_parse (strip rhs) = Inr m)"
  by (auto simp: checkConditionFromLine_def getitem_def split: list.splits option.splits sum.splits)

text \<open>
  C2, as amended. \<open>checkConditionFromLine\<close> returns exactly when the line has exactly one \<open>==\<close>,
  its left-hand side is a known constant with a value for the target, and \<open>ast.parse\<close> accepts
  the right-hand side; it then returns \<open>False\<close>, the value being a string that is compared with
  a module, and for no line and no target does it return \<open>True\<close>. So the lines between such an
  \<open>#IF\<close> line and the next \<open>#ENDIF\<close> are dropped, whatever the literal: after the block the
  collected names and the written text are what they were before it, in the source loop and in
  the library loop alike.
\<close>

theorem condition_false_block_dropped:
  assumes "split (strip (replace ifLine ''#IF '' '''')) ''=='' = [lhs, rhs]"
    and "map_of CONSTANTS (strip lhs) = Some byTarget"
    and "map_of byTarget target = Some val"
    and "ast_parse (strip rhs) = Inr m"
    and "startswith (strip ifLine) ''#IF ''"
    and "\<forall>l \<in> set body. \<not> startswith (strip l) ''#IF '' \<and> \<not> startswith (strip l) ''#ENDIF''"
    and "startswith (strip endLine) ''#ENDIF''"
  shows "checkConditionFromLine ast_parse ifLine target = Inr False
       \<and> sourceLines ast_parse target st (ifLine # body @ [endLine])
           = Inr (st\<lparr>inIf := False, skipLines := False\<rparr>)
       \<and> libraryLines ast_parse target st (ifLine # body @ [endLine])
           = Inr (st\<lparr>inIf := False, skipLines := False\<rparr>)
       \<and> (\<forall>anyLine anyTarget.
             checkConditionFromLine ast_parse anyLine anyTarget \<noteq> Inr True
           \<and> ((\<exists>c. checkConditionFromLine ast_parse anyLine anyTarget = Inr c) \<longleftrightarrow>
                (\<exists>lhs rhs byTarget val m.
                   split (strip (replace anyLine ''#IF '' '''')) ''=='' = [lhs, rhs]
                 \<and> map_of CONSTANTS (strip lhs) = Some byTarget
                 \<and> map_of byTarget anyTarget = Some val
                 \<and> ast_parse (strip rhs) = Inr m)))"
proof -
  have c: "checkConditionFromLine ast_parse ifLine target = Inr False"
    using assms(1-4) by (rule checkCondition_returns)
  let ?s = "st\<lparr>inIf := True, skipLines := True\<rparr>"
  have i: "sourceLine ast_parse target st ifLine = Inr ?s"
    using c assms(5) by (simp add: sourceLine_def startswith_IF_not_include)
  have b: "sourceLines ast_parse target ?s body = Inr ?s"
    using assms(6) by (intro sourceLines_skipped) simp_all
  have e: "sourceLine ast_parse target ?s endLine = Inr (st\<lparr>inIf := False, skipLines := False\<rparr>)"
    using assms(7) by (simp add: sourceLine_def startswith_ENDIF_not_IF)
  have i': "libraryLine ast_parse target st ifLine = Inr ?s"
    using c assms(5) by (simp add: libraryLine_def)
  have b': "libraryLines ast_parse target ?s body = Inr ?s"
    using assms(6) by (intro libraryLines_skipped) simp_all
  have e': "libraryLine ast_parse target ?s endLine = Inr (st\<lparr>inIf := False, skipLines := False\<rparr>)"
    using assms(7) by (simp add: libraryLine_def startswith_ENDIF_not_IF)
  have blocks: "sourceLines ast_parse target st (ifLine # body @ [endLine])
           = Inr (st\<lparr>inIf := False, skipLines := False\<rparr>)
       \<and> libraryLines ast_parse target st (ifLine # body @ [endLine])
           = Inr (st\<lparr>inIf := False, skipLines := False\<rparr>)"
    using i b e i' b' e' by (simp add: sourceLines_append libraryLines_append)
  show ?thesis
    using c blocks checkCondition_never_True [of ast_parse]
      checkCondition_returns_iff [of ast_parse]
    by blast
qed

theorem condition_false_block_dropped_witness:
  "checkConditionFromLine (\<lambda>s. Inr ()) ''#IF __DNI_PREFIX__ == \"CCH\"\<newline>'' COCOHUE = Inr False
   \<and> sourceLines (\<lambda>s. Inr ()) COCOHUE
        \<lparr>inIf = False, skipLines = False, libNamesToInclude = [], newFile = ''a\<newline>''\<rparr>
        [''#IF __DNI_PREFIX__ == \"CCH\"\<newline>'', ''log \"prefix ok\"\<newline>'', ''#ENDIF\<newline>'']
      = Inr \<lparr>inIf = False, skipLines = False, libNamesToInclude = [], newFile = ''a\<newline>''\<rparr>"
proof -
  have h1: "split (strip (replace ''#IF __DNI_PREFIX__ == \"CCH\"\<newline>'' ''#IF '' '''')) ''==''
              = [''__DNI_PREFIX__ '', '' \"CCH\"'']"
    by code_simp
  have h2: "map_of CONSTANTS (strip ''__DNI_PREFIX__ '') = Some [(COCOHUE, ''CCH'')]"
    by code_simp
  have h3: "map_of [(COCOHUE, ''CCH'')] COCOHUE = Some ''CCH''"
    by simp
  have h4: "(\<lambda>s::string. (Inr () :: error + unit)) (strip '' \"CCH\"'') = Inr ()"
    by simp
  have h5: "startswith (strip ''#IF __DNI_PREFIX__ == \"CCH\"\<newline>'') ''#IF ''"
    by code_simp
  have h6: "\<forall>l \<in> set [''log \"prefix ok\"\<newline>''].
              \<not> startswith (strip l) ''#IF '' \<and> \<not> startswith (strip l) ''#ENDIF''"
    by code_simp
  have h7: "startswith (strip ''#ENDIF\<newline>'') ''#ENDIF''"
    by code_simp
  show ?thesis
    using condition_false_block_dropped [OF h1 h2 h3 h4 h5 h6 h7,
      of "\<lparr>inIf = False, skipLines = False, libNamesToInclude = [], newFile = ''a\<newline>''\<rparr>"]
    by simp
qed

text \<open>
  The claim as stated fails on a line it covers: the left-hand side below is a known constant
  with a value for the target, but the literal holds \<open>==\<close>, so the split has three pieces and the
  tuple assignment raises \<open>ValueError\<close>. No \<open>False\<close> is returned, and the block is not dropped:
  the run ends at the \<open>#IF\<close> line.
\<close>

theorem literal_with_equals_counterexample:
  "checkConditionFromLine (\<lambda>s. Inr ()) ''#IF __DNI_PREFIX__ == \"a==b\"\<newline>'' COCOHUE
     = Inl ValueError
   \<and> split (strip (replace ''#IF __DNI_PREFIX__ == \"a==b\"\<newline>'' ''#IF '' '''')) ''==''
       = [''__DNI_PREFIX__ '', '' \"a'', ''b\"'']
   \<and> map_of CONSTANTS (strip ''__DNI_PREFIX__ '') = Some [(COCOHUE, ''CCH'')]
   \<and> map_of [(COCOHUE, ''CCH'')] COCOHUE = Some ''CCH''
   \<and> sourceLines (\<lambda>s. Inr ()) COCOHUE
        \<lparr>inIf = False, skipLines = False, libNamesToInclude = [], newFile = []\<rparr>
        [''#IF __DNI_PREFIX__ == \"a==b\"\<newline>'', ''log \"prefix ok\"\<newline>'', ''#ENDIF\<newline>'']
      = Inl (ValueError,
             \<lparr>inIf = False, skipLines = False, libNamesToInclude = [], newFile = []\<rparr>)"
  by code_simp

section \<open>\<open>#include\<close> lines and the skip flag\<close>

text \<open>From the initial locals, \<open>skipLines\<close> is never set without \<open>inIf\<close>.\<close>

lemma sourceLine_flags:
  "sourceLine ap target st line = Inr st' \<Longrightarrow> (skipLines st \<longrightarrow> inIf st) \<Longrightarrow> (skipLines st' \<longrightarrow> inIf st')"
  by (auto simp: sourceLine_def split: if_splits sum.splits)

lemma sourceLines_flags:
  "sourceLines ap target st ls = Inr st' \<Longrightarrow> (skipLines st \<longrightarrow> inIf st) \<Longrightarrow> (skipLines st' \<longrightarrow> inIf st')"
proof (induction ls arbitrary: st)
  case Nil
  then show ?case by simp
next
  case (Cons l ls)
  then show ?case
    by (auto split: sum.splits dest: sourceLine_flags)
qed

text \<open>
  C10. An \<open>#include\<close> line met while \<open>skipLines\<close> is set leaves the locals as they are: its name
  is not collected and nothing is written. When \<open>skipLines\<close> is not set the name is appended to
  the collected names, whatever \<open>inIf\<close> is: inside a kept block as outside any block.
\<close>

theorem include_under_skip:
  assumes "startswith (strip line) ''#include''"
    and "sourceLines ast_parse target
           \<lparr>inIf = False, skipLines = False, libNamesToInclude = [], newFile = []\<rparr> before = Inr st"
  shows "(skipLines st \<longrightarrow>
            sourceLines ast_parse target
              \<lparr>inIf = False, skipLines = False, libNamesToInclude = [], newFile = []\<rparr>
              (before @ [line]) = Inr st)
       \<and> (\<forall>s. \<not> skipLines s \<longrightarrow>
            sourceLine ast_parse target s line =
              Inr (s\<lparr>libNamesToInclude :=
                        libNamesToInclude s @ [strip (last (split line ''#include''))]\<rparr>))"
proof -
  have inv: "skipLines st \<longrightarrow> inIf st"
    using sourceLines_flags [OF assms(2)] by simp
  have nif: "\<not> startswith (strip line) ''#IF ''"
    using assms(1) startswith_IF_not_include by blast
  have nend: "\<not> startswith (strip line) ''#ENDIF''"
    using assms(1) startswith_ENDIF_not_include by blast
  have "skipLines st \<Longrightarrow> sourceLine ast_parse target st line = Inr st"
    using inv nif nend by (simp add: sourceLine_def)
  moreover have "\<not> skipLines s \<Longrightarrow> sourceLine ast_parse target s line =
      Inr (s\<lparr>libNamesToInclude := libNamesToInclude s @ [strip (last (split line ''#include''))]\<rparr>)" for s
    using assms(1) by (simp add: sourceLine_def)
  ultimately show ?thesis
    using assms(2) by (simp add: sourceLines_append)
qed

theorem include_under_skip_witness:
  "sourceLines (\<lambda>s. Inr ()) COCOHUE
      \<lparr>inIf = False, skipLines = False, libNamesToInclude = [], newFile = []\<rparr>
      [''#IF __DNI_PREFIX__ == \"XXX\"\<newline>'', ''#include RMoRobert.CoCoHue_Bri_Lib\<newline>'']
    = Inr \<lparr>inIf = True, skipLines = True, libNamesToInclude = [], newFile = []\<rparr>
   \<and> sourceLine (\<lambda>s. Inr ()) COCOHUE
      \<lparr>inIf = True, skipLines = False, libNamesToInclude = [], newFile = ''x''\<rparr>
      ''#include RMoRobert.CoCoHue_Bri_Lib\<newline>''
    = Inr \<lparr>inIf = True, skipLines = False,
            libNamesToInclude = [''RMoRobert.CoCoHue_Bri_Lib''], newFile = ''x''\<rparr>"
proof -
  have h1: "startswith (strip ''#include RMoRobert.CoCoHue_Bri_Lib\<newline>'') ''#include''"
    by code_simp
  have h2: "sourceLines (\<lambda>s. Inr ()) COCOHUE
      \<lparr>inIf = False, skipLines = False, libNamesToInclude = [], newFile = []\<rparr>
      [''#IF __DNI_PREFIX__ == \"XXX\"\<newline>'']
    = Inr \<lparr>inIf = True, skipLines = True, libNamesToInclude = [], newFile = []\<rparr>"
    by code_simp
  have n: "strip (last (split ''#include RMoRobert.CoCoHue_Bri_Lib\<newline>'' ''#include''))
             = ''RMoRobert.CoCoHue_Bri_Lib''"
    by code_simp
  show ?thesis
    using include_under_skip [OF h1 h2] by (simp add: n)
qed

section \<open>The entry point\<close>

lemma contains_append: "contains sub ys \<Longrightarrow> contains sub (xs @ ys)"
  by (induction xs) auto

text \<open>
  C9. With no argument, or with an argument that (stripped) is not a key of
  \<open>ALL_TARGET_NAMES\<close>, the script returns normally, and all it does is print one message in
  which every target name occurs: the files and the counter are what they were.
\<close>

theorem invocation_guard:
  assumes "length argv \<le> 1 \<or> strip (argv ! 1) \<notin> set (map fst ALL_TARGET_NAMES)"
  shows "\<exists>msg. script ast_parse argv w = Inr (w\<lparr>stdout := stdout w @ [msg]\<rparr>)
           \<and> (\<forall>name \<in> set (map fst ALL_TARGET_NAMES). contains name msg)"
proof -
  have r: "\<forall>name \<in> set (map fst ALL_TARGET_NAMES). contains name target_names_repr"
    by code_simp
  have listed: "\<forall>name \<in> set (map fst ALL_TARGET_NAMES). contains name (pre @ target_names_repr)"
    for pre
    using r contains_append by blast
  show ?thesis
  proof (cases "length argv \<le> 1")
    case True
    then have "script ast_parse argv w =
        Inr (w\<lparr>stdout := stdout w @
          [''No target specified. Run script with parameter, e.g., COCOHUE. Possible parameters: ''
           @ target_names_repr]\<rparr>)"
      unfolding script_def by simp
    then show ?thesis
      using listed by blast
  next
    case False
    with assms have "strip (argv ! 1) \<notin> set (map fst ALL_TARGET_NAMES)" by simp
    with False have "script ast_parse argv w =
        Inr (w\<lparr>stdout := stdout w @
          [(''Invalaid target specified: '' @ argv ! 1 @ ''. Should be one of: '')
           @ target_names_repr]\<rparr>)"
      unfolding script_def Let_def by simp
    then show ?thesis
      using listed by blast
  qed
qed

theorem invocation_guard_witness:
  "\<exists>msg. script (\<lambda>s. Inr ()) [''preprocessor-cocohue.py'', ''HUE'']
            \<lparr>files = Map.empty, stdout = [], totalProcessed = 0\<rparr>
          = Inr \<lparr>files = Map.empty, stdout = [msg], totalProcessed = 0\<rparr>
        \<and> contains ''COCOHUE'' msg"
proof -
  have h: "length [''preprocessor-cocohue.py'', ''HUE''] \<le> 1
         \<or> strip ([''preprocessor-cocohue.py'', ''HUE''] ! 1) \<notin> set (map fst ALL_TARGET_NAMES)"
    by code_simp
  have k: "''COCOHUE'' \<in> set (map fst ALL_TARGET_NAMES)"
    by (simp add: ALL_TARGET_NAMES_def)
  from invocation_guard [OF h, of "\<lambda>s. Inr ()" "\<lparr>files = Map.empty, stdout = [], totalProcessed = 0\<rparr>"]
  obtain msg where
    "script (\<lambda>s. Inr ()) [''preprocessor-cocohue.py'', ''HUE'']
        \<lparr>files = Map.empty, stdout = [], totalProcessed = 0\<rparr>
      = Inr (\<lparr>files = Map.empty, stdout = [], totalProcessed = 0\<rparr>
               \<lparr>stdout := stdout \<lparr>files = Map.empty, stdout = [], totalProcessed = 0\<rparr> @ [msg]\<rparr>)"
    and "\<forall>name \<in> set (map fst ALL_TARGET_NAMES). contains name msg"
    by blast
  moreover from this k have "contains ''COCOHUE'' msg"
    by blast
  ultimately show ?thesis
    by (intro exI [of _ msg]) simp
qed

section \<open>The destination file\<close>

lemma processFile_unfold:
  "processFile ap src dst tgt pl w =
     (case processFileBody ap ((files w)(dst \<mapsto> [])) src tgt pl of
        Inl (e, st) \<Rightarrow>
          Inl (e, w\<lparr>stdout := stdout w @ [''  PROCESSING: '' @ src @ '' -> '' @ dst],
                     files := (files w)(dst \<mapsto> newFile st)\<rparr>)
      | Inr st \<Rightarrow>
          Inr (w\<lparr>stdout := stdout w @ [''  PROCESSING: '' @ src @ '' -> '' @ dst],
                 files := (files w)(dst \<mapsto> newFile st)\<rparr>))"
proof -
  have fs: "(if files w dst \<noteq> None then (files w)(dst := None) else files w)(dst \<mapsto> [])
              = (files w)(dst \<mapsto> [])"
    by simp
  show ?thesis
    unfolding processFile_def Let_def
    by (simp only: fs world.simps fun_upd_upd split: sum.split prod.split) simp
qed

lemma includeLibraries_files:
  assumes "\<forall>f \<in> snd ` set libraries. fs (path_join LIB_DIR f) = fs' (path_join LIB_DIR f)"
  shows "includeLibraries ap fs tgt pl st names = includeLibraries ap fs' tgt pl st names"
proof (induction names arbitrary: st pl)
  case Nil
  then show ?case by simp
next
  case (Cons n names)
  show ?case
  proof (cases "map_of libraries n")
    case None
    then show ?thesis by (simp add: getitem_def)
  next
    case (Some f)
    then have "(n, f) \<in> set libraries"
      by (rule map_of_SomeD)
    then have "f \<in> snd ` set libraries"
      by force
    with assms have "fs (path_join LIB_DIR f) = fs' (path_join LIB_DIR f)"
      by blast
    then have "open_read fs (path_join LIB_DIR f) = open_read fs' (path_join LIB_DIR f)"
      by (simp add: open_read_def)
    with Some show ?thesis
      by (simp add: getitem_def Let_def Cons.IH split: sum.split)
  qed
qed

lemma processFileBody_files:
  assumes "fs src = fs' src"
    and "\<forall>f \<in> snd ` set libraries. fs (path_join LIB_DIR f) = fs' (path_join LIB_DIR f)"
  shows "processFileBody ap fs src tgt pl = processFileBody ap fs' src tgt pl"
  using assms(1)
  by (simp add: processFileBody_def open_read_def Let_def includeLibraries_files [OF assms(2)]
           split: sum.split option.split)

text \<open>
  C6. The result of \<open>processFile\<close> does not depend on what the destination was before (absent,
  or there with any content). Run again on the world it returned, it succeeds again and leaves
  the same files. And the content of the destination, or the error, is the same in any two
  worlds that agree on the source file and on the files of the library registry.
\<close>

theorem destination_replaced:
  "processFile ap src dst tgt pl (w\<lparr>files := (files w)(dst := x)\<rparr>)
     = processFile ap src dst tgt pl (w\<lparr>files := (files w)(dst := y)\<rparr>)
   \<and> (\<forall>w1. processFile ap src dst tgt pl w = Inr w1 \<longrightarrow>
         (\<exists>w2. processFile ap src dst tgt pl w1 = Inr w2 \<and> files w2 = files w1))
   \<and> (\<forall>w'. files w' src = files w src
          \<and> (\<forall>f \<in> snd ` set libraries.
                files w' (path_join LIB_DIR f) = files w (path_join LIB_DIR f))
        \<longrightarrow> map_sum (\<lambda>(e, v). (e, files v dst)) (\<lambda>v. files v dst) (processFile ap src dst tgt pl w')
          = map_sum (\<lambda>(e, v). (e, files v dst)) (\<lambda>v. files v dst) (processFile ap src dst tgt pl w))"
proof -
  have a: "processFile ap src dst tgt pl (w\<lparr>files := (files w)(dst := x)\<rparr>)
     = processFile ap src dst tgt pl (w\<lparr>files := (files w)(dst := y)\<rparr>)"
    by (simp add: processFile_unfold split: sum.split prod.split)
  have b: "\<exists>w2. processFile ap src dst tgt pl w1 = Inr w2 \<and> files w2 = files w1"
    if "processFile ap src dst tgt pl w = Inr w1" for w1
    using that
    by (auto simp: processFile_unfold split: sum.splits prod.splits)
  have c: "map_sum (\<lambda>(e, v). (e, files v dst)) (\<lambda>v. files v dst) (processFile ap src dst tgt pl w')
          = map_sum (\<lambda>(e, v). (e, files v dst)) (\<lambda>v. files v dst) (processFile ap src dst tgt pl w)"
    if s: "files w' src = files w src"
      and l: "\<forall>f \<in> snd ` set libraries.
                files w' (path_join LIB_DIR f) = files w (path_join LIB_DIR f)"
    for w'
  proof -
    have "processFileBody ap ((files w')(dst \<mapsto> [])) src tgt pl
            = processFileBody ap ((files w)(dst \<mapsto> [])) src tgt pl"
      using s l by (intro processFileBody_files) simp_all
    then show ?thesis
      by (simp add: processFile_unfold split: sum.split prod.split)
  qed
  show ?thesis using a b c by blast
qed

theorem destination_replaced_witness:
  "files (projr (processFile (\<lambda>s. Inr ()) ''apps/a'' ''out'' COCOHUE True
      \<lparr>files = [''apps/a'' \<mapsto> ''x __NAMESPACE__\<newline>'', ''out'' \<mapsto> ''old''],
         stdout = [], totalProcessed = 0\<rparr>)) ''out'' = Some ''x RMoRobert\<newline>''
  \<and> (\<exists>w2. processFile (\<lambda>s. Inr ()) ''apps/a'' ''out'' COCOHUE True
        (projr (processFile (\<lambda>s. Inr ()) ''apps/a'' ''out'' COCOHUE True
      \<lparr>files = [''apps/a'' \<mapsto> ''x __NAMESPACE__\<newline>'', ''out'' \<mapsto> ''old''],
         stdout = [], totalProcessed = 0\<rparr>)) = Inr w2
       \<and> files w2 ''out'' = Some ''x RMoRobert\<newline>'')"
proof -
  let ?w = "\<lparr>files = [''apps/a'' \<mapsto> ''x __NAMESPACE__\<newline>'', ''out'' \<mapsto> ''old''],
         stdout = [], totalProcessed = 0\<rparr>"
  have body: "processFileBody (\<lambda>s. Inr ()) ((files ?w)(''out'' \<mapsto> [])) ''apps/a'' COCOHUE True
      = Inr \<lparr>inIf = False, skipLines = False, libNamesToInclude = [], newFile = ''x RMoRobert\<newline>''\<rparr>"
    by code_simp
  have run: "processFile (\<lambda>s. Inr ()) ''apps/a'' ''out'' COCOHUE True ?w =
      Inr (?w\<lparr>stdout := stdout ?w @ [''  PROCESSING: '' @ ''apps/a'' @ '' -> '' @ ''out''],
                 files := (files ?w)(''out'' \<mapsto> ''x RMoRobert\<newline>'')\<rparr>)"
    unfolding processFile_unfold body by simp
  let ?w1 = "?w\<lparr>stdout := stdout ?w @ [''  PROCESSING: '' @ ''apps/a'' @ '' -> '' @ ''out''],
                 files := (files ?w)(''out'' \<mapsto> ''x RMoRobert\<newline>'')\<rparr>"
  from destination_replaced [of "\<lambda>s. Inr ()" "''apps/a''" "''out''" COCOHUE True ?w]
  have "\<forall>w1. processFile (\<lambda>s. Inr ()) ''apps/a'' ''out'' COCOHUE True ?w = Inr w1 \<longrightarrow>
         (\<exists>w2. processFile (\<lambda>s. Inr ()) ''apps/a'' ''out'' COCOHUE True w1 = Inr w2
            \<and> files w2 = files w1)"
    by blast
  with run obtain w2 where
    "processFile (\<lambda>s. Inr ()) ''apps/a'' ''out'' COCOHUE True ?w1 = Inr w2" "files w2 = files ?w1"
    by blast
  with run show ?thesis
    by auto
qed

section \<open>Running the loops on given lines\<close>

lemma checkCondition_known:
  assumes "split (strip (replace line ''#IF '' '''')) ''=='' = [lhs, rhs]"
    and "map_of CONSTANTS (strip lhs) = Some byTarget"
    and "map_of byTarget target = Some val"
  shows "checkConditionFromLine ast_parse line target =
           (case ast_parse (strip rhs) of Inl e \<Rightarrow> Inl e | Inr m \<Rightarrow> Inr False)"
  using assms by (simp add: checkConditionFromLine_def getitem_def split: sum.split)

lemma check_CCH:
  "checkConditionFromLine ast_parse ''#IF __DNI_PREFIX__ == \"CCH\"\<newline>'' COCOHUE =
     (case ast_parse ''\"CCH\"'' of Inl e \<Rightarrow> Inl e | Inr m \<Rightarrow> Inr False)"
proof -
  have h1: "split (strip (replace ''#IF __DNI_PREFIX__ == \"CCH\"\<newline>'' ''#IF '' '''')) ''==''
              = [''__DNI_PREFIX__ '', '' \"CCH\"'']"
    by code_simp
  have h2: "map_of CONSTANTS (strip ''__DNI_PREFIX__ '') = Some [(COCOHUE, ''CCH'')]"
    by code_simp
  have h3: "map_of [(COCOHUE, ''CCH'')] COCOHUE = Some ''CCH''"
    by simp
  have h4: "strip '' \"CCH\"'' = ''\"CCH\"''"
    by code_simp
  show ?thesis
    using checkCondition_known [OF h1 h2 h3, of ast_parse] by (simp add: h4)
qed

lemma check_XXX:
  "checkConditionFromLine ast_parse ''#IF __DNI_PREFIX__ == \"XXX\"\<newline>'' COCOHUE =
     (case ast_parse ''\"XXX\"'' of Inl e \<Rightarrow> Inl e | Inr m \<Rightarrow> Inr False)"
proof -
  have h1: "split (strip (replace ''#IF __DNI_PREFIX__ == \"XXX\"\<newline>'' ''#IF '' '''')) ''==''
              = [''__DNI_PREFIX__ '', '' \"XXX\"'']"
    by code_simp
  have h2: "map_of CONSTANTS (strip ''__DNI_PREFIX__ '') = Some [(COCOHUE, ''CCH'')]"
    by code_simp
  have h3: "map_of [(COCOHUE, ''CCH'')] COCOHUE = Some ''CCH''"
    by simp
  have h4: "strip '' \"XXX\"'' = ''\"XXX\"''"
    by code_simp
  show ?thesis
    using checkCondition_known [OF h1 h2 h3, of ast_parse] by (simp add: h4)
qed

lemma sourceLines_block:
  assumes "checkConditionFromLine ap ifLine target = Inr False"
    and "startswith (strip ifLine) ''#IF ''"
    and "\<forall>l \<in> set body. \<not> startswith (strip l) ''#IF '' \<and> \<not> startswith (strip l) ''#ENDIF''"
  shows "sourceLines ap target st (ifLine # body) = Inr (st\<lparr>inIf := True, skipLines := True\<rparr>)"
proof -
  let ?s = "st\<lparr>inIf := True, skipLines := True\<rparr>"
  have "sourceLine ap target st ifLine = Inr ?s"
    using assms(1,2) by (simp add: sourceLine_def startswith_IF_not_include)
  moreover have "sourceLines ap target ?s body = Inr ?s"
    using assms(3) by (intro sourceLines_skipped) simp_all
  ultimately show ?thesis by simp
qed

lemma libraryLines_block:
  assumes "checkConditionFromLine ap ifLine target = Inr False"
    and "startswith (strip ifLine) ''#IF ''"
    and "\<forall>l \<in> set body. \<not> startswith (strip l) ''#IF '' \<and> \<not> startswith (strip l) ''#ENDIF''"
  shows "libraryLines ap target st (ifLine # body) = Inr (st\<lparr>inIf := True, skipLines := True\<rparr>)"
proof -
  let ?s = "st\<lparr>inIf := True, skipLines := True\<rparr>"
  have "libraryLine ap target st ifLine = Inr ?s"
    using assms(1,2) by (simp add: libraryLine_def)
  moreover have "libraryLines ap target ?s body = Inr ?s"
    using assms(3) by (intro libraryLines_skipped) simp_all
  ultimately show ?thesis by simp
qed

lemma sourceLine_ENDIF:
  "startswith (strip l) ''#ENDIF'' \<Longrightarrow>
     sourceLine ap target st l = Inr (st\<lparr>inIf := False, skipLines := False\<rparr>)"
  by (simp add: sourceLine_def startswith_ENDIF_not_IF startswith_ENDIF_not_include)

lemma libraryLine_ENDIF:
  "startswith (strip l) ''#ENDIF'' \<Longrightarrow>
     libraryLine ap target st l = Inr (st\<lparr>inIf := False, skipLines := False\<rparr>)"
  by (simp add: libraryLine_def startswith_ENDIF_not_IF)

lemma sourceLines_closed_block:
  assumes "checkConditionFromLine ap ifLine target = Inr False"
    and "startswith (strip ifLine) ''#IF ''"
    and "\<forall>l \<in> set body. \<not> startswith (strip l) ''#IF '' \<and> \<not> startswith (strip l) ''#ENDIF''"
    and "startswith (strip endLine) ''#ENDIF''"
  shows "sourceLines ap target st (ifLine # body @ [endLine])
           = Inr (st\<lparr>inIf := False, skipLines := False\<rparr>)"
proof -
  have "sourceLines ap target st ((ifLine # body) @ [endLine])
           = Inr (st\<lparr>inIf := False, skipLines := False\<rparr>)"
    unfolding sourceLines_append sourceLines_block [OF assms(1-3)]
    by (simp add: sourceLine_ENDIF [OF assms(4)])
  then show ?thesis by simp
qed

lemma libraryLines_closed_block:
  assumes "checkConditionFromLine ap ifLine target = Inr False"
    and "startswith (strip ifLine) ''#IF ''"
    and "\<forall>l \<in> set body. \<not> startswith (strip l) ''#IF '' \<and> \<not> startswith (strip l) ''#ENDIF''"
    and "startswith (strip endLine) ''#ENDIF''"
  shows "libraryLines ap target st (ifLine # body @ [endLine])
           = Inr (st\<lparr>inIf := False, skipLines := False\<rparr>)"
proof -
  have "libraryLines ap target st ((ifLine # body) @ [endLine])
           = Inr (st\<lparr>inIf := False, skipLines := False\<rparr>)"
    unfolding libraryLines_append libraryLines_block [OF assms(1-3)]
    by (simp add: libraryLine_ENDIF [OF assms(4)])
  then show ?thesis by simp
qed

lemma sourceLine_include:
  "startswith (strip l) ''#include'' \<Longrightarrow> \<not> skipLines st \<Longrightarrow>
     sourceLine ap target st l =
       Inr (st\<lparr>libNamesToInclude := libNamesToInclude st @ [strip (last (split l ''#include''))]\<rparr>)"
  by (simp add: sourceLine_def)

lemma includeLibraries_preprocessed:
  assumes "map_of libraries n = Some f"
    and "fs (path_join LIB_DIR f) = Some text"
    and "libraryLines ap target (st\<lparr>newFile := newFile st @ toPrepend n\<rparr>) (readlines text) = Inr st2"
  shows "includeLibraries ap fs target True st (n # rest) = includeLibraries ap fs target True st2 rest"
  using assms by (simp add: getitem_def open_read_def)

lemma libraryLine_written:
  assumes "\<not> startswith (strip l) ''#IF ''" "\<not> startswith (strip l) ''#ENDIF''"
    and "\<not> (inIf st \<and> skipLines st)"
    and "processConstants l target = Inr s"
  shows "libraryLine ap target st l = Inr (st\<lparr>newFile := newFile st @ s\<rparr>)"
  using assms by (simp add: libraryLine_def)

lemma sourceLine_written:
  assumes "\<not> startswith (strip l) ''#include''"
    and "\<not> startswith (strip l) ''#IF ''" "\<not> startswith (strip l) ''#ENDIF''"
    and "\<not> (inIf st \<and> skipLines st)"
    and "processConstants l target = Inr s"
  shows "sourceLine ap target st l = Inr (st\<lparr>newFile := newFile st @ s\<rparr>)"
  using assms by (simp add: sourceLine_def)

section \<open>A block whose condition should hold\<close>

text \<open>
  C1. The scenario of the claim, run: the source file is the block
  \<open>#IF __DNI_PREFIX__ == "CCH"\<close> / \<open>log "prefix ok"\<close> / \<open>#ENDIF\<close>, the target is \<open>COCOHUE\<close>, for
  which \<open>__DNI_PREFIX__\<close> is \<open>CCH\<close>, and \<open>ast.parse\<close> accepts the literal. \<open>processFile\<close> returns
  normally and the destination is empty: the \<open>log\<close> line is not written.
\<close>

theorem equal_condition_block_dropped:
  assumes "ast_parse ''\"CCH\"'' = Inr m"
  shows "\<exists>w'. processFile ast_parse ''apps/a.groovy'' ''full/a.groovy'' COCOHUE True
           \<lparr>files = [''apps/a.groovy'' \<mapsto>
               ''#IF __DNI_PREFIX__ == \"CCH\"\<newline>log \"prefix ok\"\<newline>#ENDIF\<newline>''],
            stdout = [], totalProcessed = 0\<rparr> = Inr w'
         \<and> files w' ''full/a.groovy'' = Some []"
proof -
  let ?text = "''#IF __DNI_PREFIX__ == \"CCH\"\<newline>log \"prefix ok\"\<newline>#ENDIF\<newline>''"
  let ?st0 = "\<lparr>inIf = False, skipLines = False, libNamesToInclude = [], newFile = []\<rparr>"
  have c: "checkConditionFromLine ast_parse ''#IF __DNI_PREFIX__ == \"CCH\"\<newline>'' COCOHUE = Inr False"
    using assms by (simp add: check_CCH)
  have l: "readlines ?text =
      ''#IF __DNI_PREFIX__ == \"CCH\"\<newline>'' # [''log \"prefix ok\"\<newline>''] @ [''#ENDIF\<newline>'']"
    by code_simp
  have h5: "startswith (strip ''#IF __DNI_PREFIX__ == \"CCH\"\<newline>'') ''#IF ''"
    by code_simp
  have h6: "\<forall>l \<in> set [''log \"prefix ok\"\<newline>''].
              \<not> startswith (strip l) ''#IF '' \<and> \<not> startswith (strip l) ''#ENDIF''"
    by code_simp
  have h7: "startswith (strip ''#ENDIF\<newline>'') ''#ENDIF''"
    by code_simp
  have "sourceLines ast_parse COCOHUE ?st0 (readlines ?text) = Inr ?st0"
    unfolding l using sourceLines_closed_block [OF c h5 h6 h7, of ?st0]
    by simp
  then have "processFileBody ast_parse
        ([''apps/a.groovy'' \<mapsto> ?text, ''full/a.groovy'' \<mapsto> []]) ''apps/a.groovy'' COCOHUE True
      = Inr ?st0"
    by (simp add: processFileBody_def open_read_def)
  then show ?thesis
    by (simp add: processFile_unfold)
qed

theorem equal_condition_block_dropped_witness:
  "\<exists>w'. processFile (\<lambda>s. Inr ()) ''apps/a.groovy'' ''full/a.groovy'' COCOHUE True
           \<lparr>files = [''apps/a.groovy'' \<mapsto>
               ''#IF __DNI_PREFIX__ == \"CCH\"\<newline>log \"prefix ok\"\<newline>#ENDIF\<newline>''],
            stdout = [], totalProcessed = 0\<rparr> = Inr w'
         \<and> files w' ''full/a.groovy'' = Some []"
  using equal_condition_block_dropped [of "\<lambda>s. Inr ()" "()"] by simp

section \<open>The flags across the loops\<close>

text \<open>
  C5. Two libraries are included; the first one ends inside an \<open>#IF\<close> block whose literal differs
  from the value of the constant, the second one is the single line \<open>x\<close>. \<open>processFile\<close>
  returns normally and the destination holds the two comments and nothing else: the second
  library is read with the flags the first one left, so its line is dropped.
\<close>

theorem library_inherits_skip:
  assumes "ast_parse ''\"XXX\"'' = Inr m"
  shows "\<exists>w'. processFile ast_parse ''apps/a.groovy'' ''full/a.groovy'' COCOHUE True
           \<lparr>files = [''apps/a.groovy'' \<mapsto>
                        ''#include RMoRobert.CoCoHue_Bri_Lib\<newline>#include RMoRobert.CoCoHue_CT_Lib\<newline>'',
                     ''libraries/cocohue-library-bri.groovy'' \<mapsto>
                        ''#IF __DNI_PREFIX__ == \"XXX\"\<newline>'',
                     ''libraries/cocohue-library-ct.groovy'' \<mapsto> ''x\<newline>''],
            stdout = [], totalProcessed = 0\<rparr> = Inr w'
         \<and> files w' ''full/a.groovy''
             = Some (toPrepend ''RMoRobert.CoCoHue_Bri_Lib'' @ toPrepend ''RMoRobert.CoCoHue_CT_Lib'')"
proof -
  let ?src = "''#include RMoRobert.CoCoHue_Bri_Lib\<newline>#include RMoRobert.CoCoHue_CT_Lib\<newline>''"
  let ?fs = "[''apps/a.groovy'' \<mapsto> ?src,
              ''libraries/cocohue-library-bri.groovy'' \<mapsto> ''#IF __DNI_PREFIX__ == \"XXX\"\<newline>'',
              ''libraries/cocohue-library-ct.groovy'' \<mapsto> ''x\<newline>'',
              ''full/a.groovy'' \<mapsto> []]"
  let ?st0 = "\<lparr>inIf = False, skipLines = False, libNamesToInclude = [], newFile = []\<rparr>"
  let ?names = "[''RMoRobert.CoCoHue_Bri_Lib'', ''RMoRobert.CoCoHue_CT_Lib'']"
  let ?st1 = "\<lparr>inIf = False, skipLines = False, libNamesToInclude = ?names, newFile = []\<rparr>"
  let ?st2 = "\<lparr>inIf = True, skipLines = True, libNamesToInclude = ?names,
               newFile = toPrepend ''RMoRobert.CoCoHue_Bri_Lib''\<rparr>"
  let ?st3 = "\<lparr>inIf = True, skipLines = True, libNamesToInclude = ?names,
               newFile = toPrepend ''RMoRobert.CoCoHue_Bri_Lib'' @ toPrepend ''RMoRobert.CoCoHue_CT_Lib''\<rparr>"
  have c: "checkConditionFromLine ast_parse ''#IF __DNI_PREFIX__ == \"XXX\"\<newline>'' COCOHUE = Inr False"
    using assms by (simp add: check_XXX)
  have i: "startswith (strip ''#IF __DNI_PREFIX__ == \"XXX\"\<newline>'') ''#IF ''"
    by code_simp
  have src: "sourceLines ast_parse COCOHUE ?st0 (readlines ?src) = Inr ?st1"
  proof -
    have l: "readlines ?src =
        [''#include RMoRobert.CoCoHue_Bri_Lib\<newline>'', ''#include RMoRobert.CoCoHue_CT_Lib\<newline>'']"
      by code_simp
    have a: "startswith (strip ''#include RMoRobert.CoCoHue_Bri_Lib\<newline>'') ''#include''"
      by code_simp
    have a': "strip (last (split ''#include RMoRobert.CoCoHue_Bri_Lib\<newline>'' ''#include''))
               = ''RMoRobert.CoCoHue_Bri_Lib''"
      by code_simp
    have b: "startswith (strip ''#include RMoRobert.CoCoHue_CT_Lib\<newline>'') ''#include''"
      by code_simp
    have b': "strip (last (split ''#include RMoRobert.CoCoHue_CT_Lib\<newline>'' ''#include''))
               = ''RMoRobert.CoCoHue_CT_Lib''"
      by code_simp
    show ?thesis
      unfolding l by (simp add: sourceLine_include [OF a] sourceLine_include [OF b] a' b')
  qed
  have bri: "includeLibraries ast_parse ?fs COCOHUE True ?st1 ?names
           = includeLibraries ast_parse ?fs COCOHUE True ?st2 [''RMoRobert.CoCoHue_CT_Lib'']"
  proof (rule includeLibraries_preprocessed)
    show "map_of libraries ''RMoRobert.CoCoHue_Bri_Lib'' = Some ''cocohue-library-bri.groovy''"
      by code_simp
    have "path_join LIB_DIR ''cocohue-library-bri.groovy'' = ''libraries/cocohue-library-bri.groovy''"
      by code_simp
    then show "?fs (path_join LIB_DIR ''cocohue-library-bri.groovy'')
                 = Some ''#IF __DNI_PREFIX__ == \"XXX\"\<newline>''"
      by simp
    have l: "readlines ''#IF __DNI_PREFIX__ == \"XXX\"\<newline>'' = [''#IF __DNI_PREFIX__ == \"XXX\"\<newline>'']"
      by code_simp
    show "libraryLines ast_parse COCOHUE
            (?st1\<lparr>newFile := newFile ?st1 @ toPrepend ''RMoRobert.CoCoHue_Bri_Lib''\<rparr>)
            (readlines ''#IF __DNI_PREFIX__ == \"XXX\"\<newline>'') = Inr ?st2"
      unfolding l using libraryLines_block [OF c i, of "[]"] by simp
  qed
  have ct: "includeLibraries ast_parse ?fs COCOHUE True ?st2 [''RMoRobert.CoCoHue_CT_Lib'']
           = includeLibraries ast_parse ?fs COCOHUE True ?st3 []"
  proof (rule includeLibraries_preprocessed)
    show "map_of libraries ''RMoRobert.CoCoHue_CT_Lib'' = Some ''cocohue-library-ct.groovy''"
      by code_simp
    have "path_join LIB_DIR ''cocohue-library-ct.groovy'' = ''libraries/cocohue-library-ct.groovy''"
      by code_simp
    then show "?fs (path_join LIB_DIR ''cocohue-library-ct.groovy'') = Some ''x\<newline>''"
      by simp
    have l: "\<forall>l \<in> set (readlines ''x\<newline>'').
               \<not> startswith (strip l) ''#IF '' \<and> \<not> startswith (strip l) ''#ENDIF''"
      by code_simp
    show "libraryLines ast_parse COCOHUE
            (?st2\<lparr>newFile := newFile ?st2 @ toPrepend ''RMoRobert.CoCoHue_CT_Lib''\<rparr>)
            (readlines ''x\<newline>'') = Inr ?st3"
      by (rule libraryLines_skipped [OF _ _ l, THEN trans]) simp_all
  qed
  have "processFileBody ast_parse ?fs ''apps/a.groovy'' COCOHUE True = Inr ?st3"
    using src bri ct by (simp add: processFileBody_def open_read_def)
  then show ?thesis
    by (simp add: processFile_unfold)
qed

theorem library_inherits_skip_witness:
  "\<exists>w'. processFile (\<lambda>s. Inr ()) ''apps/a.groovy'' ''full/a.groovy'' COCOHUE True
           \<lparr>files = [''apps/a.groovy'' \<mapsto>
                        ''#include RMoRobert.CoCoHue_Bri_Lib\<newline>#include RMoRobert.CoCoHue_CT_Lib\<newline>'',
                     ''libraries/cocohue-library-bri.groovy'' \<mapsto>
                        ''#IF __DNI_PREFIX__ == \"XXX\"\<newline>'',
                     ''libraries/cocohue-library-ct.groovy'' \<mapsto> ''x\<newline>''],
            stdout = [], totalProcessed = 0\<rparr> = Inr w'
         \<and> files w' ''full/a.groovy''
             = Some (toPrepend ''RMoRobert.CoCoHue_Bri_Lib'' @ toPrepend ''RMoRobert.CoCoHue_CT_Lib'')"
  using library_inherits_skip [of "\<lambda>s. Inr ()" "()"] by simp

text \<open>
  C8. A source file includes a library and ends inside an \<open>#IF\<close> block. \<open>processFile\<close> returns
  normally, but the line of the library is not written: the destination holds the comment
  alone. With \<open>#ENDIF\<close> added as the last line of the source file, the line of the library
  is written after the comment.
\<close>

theorem unterminated_if_reaches_library:
  assumes "ast_parse ''\"XXX\"'' = Inr m"
  shows "(\<exists>w'. processFile ast_parse ''apps/a.groovy'' ''full/a.groovy'' COCOHUE True
           \<lparr>files = [''apps/a.groovy'' \<mapsto>
                        ''#include RMoRobert.CoCoHue_Bri_Lib\<newline>#IF __DNI_PREFIX__ == \"XXX\"\<newline>skipped\<newline>'',
                     ''libraries/cocohue-library-bri.groovy'' \<mapsto> ''x\<newline>''],
            stdout = [], totalProcessed = 0\<rparr> = Inr w'
         \<and> files w' ''full/a.groovy'' = Some (toPrepend ''RMoRobert.CoCoHue_Bri_Lib''))
       \<and> (\<exists>w'. processFile ast_parse ''apps/a.groovy'' ''full/a.groovy'' COCOHUE True
           \<lparr>files = [''apps/a.groovy'' \<mapsto>
                        ''#include RMoRobert.CoCoHue_Bri_Lib\<newline>#IF __DNI_PREFIX__ == \"XXX\"\<newline>skipped\<newline>#ENDIF\<newline>'',
                     ''libraries/cocohue-library-bri.groovy'' \<mapsto> ''x\<newline>''],
            stdout = [], totalProcessed = 0\<rparr> = Inr w'
         \<and> files w' ''full/a.groovy'' = Some (toPrepend ''RMoRobert.CoCoHue_Bri_Lib'' @ ''x\<newline>''))"
proof -
  let ?open = "''#include RMoRobert.CoCoHue_Bri_Lib\<newline>#IF __DNI_PREFIX__ == \"XXX\"\<newline>skipped\<newline>''"
  let ?closed = "''#include RMoRobert.CoCoHue_Bri_Lib\<newline>#IF __DNI_PREFIX__ == \"XXX\"\<newline>skipped\<newline>#ENDIF\<newline>''"
  let ?fs = "\<lambda>src. [''apps/a.groovy'' \<mapsto> src,
              ''libraries/cocohue-library-bri.groovy'' \<mapsto> ''x\<newline>'',
              ''full/a.groovy'' \<mapsto> []]"
  let ?st0 = "\<lparr>inIf = False, skipLines = False, libNamesToInclude = [], newFile = []\<rparr>"
  let ?names = "[''RMoRobert.CoCoHue_Bri_Lib'']"
  let ?st1 = "\<lparr>inIf = False, skipLines = False, libNamesToInclude = ?names, newFile = []\<rparr>"
  let ?skip = "\<lparr>inIf = True, skipLines = True, libNamesToInclude = ?names, newFile = []\<rparr>"
  have c: "checkConditionFromLine ast_parse ''#IF __DNI_PREFIX__ == \"XXX\"\<newline>'' COCOHUE = Inr False"
    using assms by (simp add: check_XXX)
  have i: "startswith (strip ''#IF __DNI_PREFIX__ == \"XXX\"\<newline>'') ''#IF ''"
    by code_simp
  have inc: "startswith (strip ''#include RMoRobert.CoCoHue_Bri_Lib\<newline>'') ''#include''"
    by code_simp
  have name: "strip (last (split ''#include RMoRobert.CoCoHue_Bri_Lib\<newline>'' ''#include''))
               = ''RMoRobert.CoCoHue_Bri_Lib''"
    by code_simp
  have body: "\<forall>l \<in> set [''skipped\<newline>''].
               \<not> startswith (strip l) ''#IF '' \<and> \<not> startswith (strip l) ''#ENDIF''"
    by code_simp
  have e: "startswith (strip ''#ENDIF\<newline>'') ''#ENDIF''"
    by code_simp
  have first: "sourceLine ast_parse COCOHUE ?st0 ''#include RMoRobert.CoCoHue_Bri_Lib\<newline>'' = Inr ?st1"
    by (simp add: sourceLine_include [OF inc] name)
  have lo: "readlines ?open = [''#include RMoRobert.CoCoHue_Bri_Lib\<newline>'',
                               ''#IF __DNI_PREFIX__ == \"XXX\"\<newline>'', ''skipped\<newline>'']"
    by code_simp
  have lc: "readlines ?closed = [''#include RMoRobert.CoCoHue_Bri_Lib\<newline>'',
                               ''#IF __DNI_PREFIX__ == \"XXX\"\<newline>'', ''skipped\<newline>'',
                               ''#ENDIF\<newline>'']"
    by code_simp
  have srco: "sourceLines ast_parse COCOHUE ?st0 (readlines ?open) = Inr ?skip"
    unfolding lo using first sourceLines_block [OF c i body, of ?st1] by simp
  have srcc: "sourceLines ast_parse COCOHUE ?st0 (readlines ?closed) = Inr ?st1"
    unfolding lc using first sourceLines_closed_block [OF c i body e, of ?st1] by simp
  have reg: "map_of libraries ''RMoRobert.CoCoHue_Bri_Lib'' = Some ''cocohue-library-bri.groovy''"
    by code_simp
  have path: "path_join LIB_DIR ''cocohue-library-bri.groovy'' = ''libraries/cocohue-library-bri.groovy''"
    by code_simp
  have lib: "readlines ''x\<newline>'' = [''x\<newline>'']"
    by code_simp
  have plain: "\<not> startswith (strip ''x\<newline>'') ''#IF ''" "\<not> startswith (strip ''x\<newline>'') ''#ENDIF''"
    by code_simp+
  have pc: "processConstants ''x\<newline>'' COCOHUE = Inr ''x\<newline>''"
    by code_simp
  have libo: "includeLibraries ast_parse (?fs ?open) COCOHUE True ?skip ?names
      = Inr (?skip\<lparr>newFile := toPrepend ''RMoRobert.CoCoHue_Bri_Lib''\<rparr>)"
  proof -
    have "libraryLines ast_parse COCOHUE
            (?skip\<lparr>newFile := newFile ?skip @ toPrepend ''RMoRobert.CoCoHue_Bri_Lib''\<rparr>)
            (readlines ''x\<newline>'') = Inr (?skip\<lparr>newFile := toPrepend ''RMoRobert.CoCoHue_Bri_Lib''\<rparr>)"
      unfolding lib using plain by (simp add: libraryLine_def)
    then show ?thesis
      using reg path by (simp add: getitem_def open_read_def)
  qed
  have libc: "includeLibraries ast_parse (?fs ?closed) COCOHUE True ?st1 ?names
      = Inr (?st1\<lparr>newFile := toPrepend ''RMoRobert.CoCoHue_Bri_Lib'' @ ''x\<newline>''\<rparr>)"
  proof -
    have "libraryLines ast_parse COCOHUE
            (?st1\<lparr>newFile := newFile ?st1 @ toPrepend ''RMoRobert.CoCoHue_Bri_Lib''\<rparr>)
            (readlines ''x\<newline>'')
          = Inr (?st1\<lparr>newFile := toPrepend ''RMoRobert.CoCoHue_Bri_Lib'' @ ''x\<newline>''\<rparr>)"
      unfolding lib by (simp add: libraryLine_written [OF plain _ pc])
    then show ?thesis
      using reg path by (simp add: getitem_def open_read_def)
  qed
  have "processFileBody ast_parse (?fs ?open) ''apps/a.groovy'' COCOHUE True
          = Inr (?skip\<lparr>newFile := toPrepend ''RMoRobert.CoCoHue_Bri_Lib''\<rparr>)"
    using srco libo by (simp add: processFileBody_def open_read_def)
  moreover have "processFileBody ast_parse (?fs ?closed) ''apps/a.groovy'' COCOHUE True
          = Inr (?st1\<lparr>newFile := toPrepend ''RMoRobert.CoCoHue_Bri_Lib'' @ ''x\<newline>''\<rparr>)"
    using srcc libc by (simp add: processFileBody_def open_read_def)
  ultimately show ?thesis
    by (simp add: processFile_unfold)
qed

theorem unterminated_if_reaches_library_witness:
  "(\<exists>w'. processFile (\<lambda>s. Inr ()) ''apps/a.groovy'' ''full/a.groovy'' COCOHUE True
           \<lparr>files = [''apps/a.groovy'' \<mapsto>
                        ''#include RMoRobert.CoCoHue_Bri_Lib\<newline>#IF __DNI_PREFIX__ == \"XXX\"\<newline>skipped\<newline>'',
                     ''libraries/cocohue-library-bri.groovy'' \<mapsto> ''x\<newline>''],
            stdout = [], totalProcessed = 0\<rparr> = Inr w'
         \<and> files w' ''full/a.groovy'' = Some (toPrepend ''RMoRobert.CoCoHue_Bri_Lib''))
       \<and> (\<exists>w'. processFile (\<lambda>s. Inr ()) ''apps/a.groovy'' ''full/a.groovy'' COCOHUE True
           \<lparr>files = [''apps/a.groovy'' \<mapsto>
                        ''#include RMoRobert.CoCoHue_Bri_Lib\<newline>#IF __DNI_PREFIX__ == \"XXX\"\<newline>skipped\<newline>#ENDIF\<newline>'',
                     ''libraries/cocohue-library-bri.groovy'' \<mapsto> ''x\<newline>''],
            stdout = [], totalProcessed = 0\<rparr> = Inr w'
         \<and> files w' ''full/a.groovy'' = Some (toPrepend ''RMoRobert.CoCoHue_Bri_Lib'' @ ''x\<newline>''))"
  using unterminated_if_reaches_library [of "\<lambda>s. Inr ()" "()"] by simp

section \<open>Includes and the two loops\<close>

lemma libraryLine_appends:
  "libraryLine ap target s l = Inr s' \<Longrightarrow>
     \<exists>b. newFile s' = newFile s @ b \<and> libNamesToInclude s' = libNamesToInclude s"
  by (auto simp: libraryLine_def split: if_splits sum.splits)

lemma libraryLines_appends:
  "libraryLines ap target s ls = Inr s' \<Longrightarrow>
     \<exists>b. newFile s' = newFile s @ b \<and> libNamesToInclude s' = libNamesToInclude s"
proof (induction ls arbitrary: s)
  case Nil
  then show ?case by simp
next
  case (Cons l ls)
  then obtain s1 where 1: "libraryLine ap target s l = Inr s1"
    and 2: "libraryLines ap target s1 ls = Inr s'"
    by (auto split: sum.splits)
  from libraryLine_appends [OF 1] Cons.IH [OF 2] show ?case
    by auto
qed

lemma includeLibraries_written:
  assumes "includeLibraries ap fs target pl st names = Inr st'"
  shows "\<exists>bodies.
           list_all2 (\<lambda>n b. \<exists>f text. map_of libraries n = Some f
                        \<and> fs (path_join LIB_DIR f) = Some text
                        \<and> (if pl
                            then \<exists>s s'. libraryLines ap target s (readlines text) = Inr s'
                                     \<and> newFile s' = newFile s @ b
                            else b = text))
             names bodies
         \<and> newFile st' = newFile st @ concat (map2 (\<lambda>n b. toPrepend n @ b) names bodies)"
  using assms
proof (induction names arbitrary: st)
  case Nil
  then show ?case by simp
next
  case (Cons n names)
  from Cons.prems obtain f where f: "map_of libraries n = Some f"
    by (auto simp: getitem_def split: option.splits)
  from Cons.prems f obtain libText where t: "fs (path_join LIB_DIR f) = Some libText"
    by (auto simp: getitem_def open_read_def split: option.splits)
  let ?st1 = "st\<lparr>newFile := newFile st @ toPrepend n\<rparr>"
  show ?case
  proof (cases pl)
    case False
    with Cons.prems f t have
      "includeLibraries ap fs target pl (?st1\<lparr>newFile := newFile ?st1 @ libText\<rparr>) names = Inr st'"
      by (simp add: getitem_def open_read_def)
    from Cons.IH [OF this] obtain bodies where
      b: "list_all2 (\<lambda>n b. \<exists>f text. map_of libraries n = Some f
                        \<and> fs (path_join LIB_DIR f) = Some text
                        \<and> (if pl
                            then \<exists>s s'. libraryLines ap target s (readlines text) = Inr s'
                                     \<and> newFile s' = newFile s @ b
                            else b = text)) names bodies"
      and w: "newFile st' = newFile (?st1\<lparr>newFile := newFile ?st1 @ libText\<rparr>)
                @ concat (map2 (\<lambda>n b. toPrepend n @ b) names bodies)"
      by blast
    show ?thesis
      using f t b w False by (intro exI [of _ "libText # bodies"]) simp
  next
    case True
    with Cons.prems f t obtain st2 where
      l: "libraryLines ap target ?st1 (readlines libText) = Inr st2"
      and r: "includeLibraries ap fs target pl st2 names = Inr st'"
      by (auto simp: getitem_def open_read_def split: sum.splits)
    from libraryLines_appends [OF l] obtain b0 where b0: "newFile st2 = newFile ?st1 @ b0"
      by blast
    from Cons.IH [OF r] obtain bodies where
      b: "list_all2 (\<lambda>n b. \<exists>f text. map_of libraries n = Some f
                        \<and> fs (path_join LIB_DIR f) = Some text
                        \<and> (if pl
                            then \<exists>s s'. libraryLines ap target s (readlines text) = Inr s'
                                     \<and> newFile s' = newFile s @ b
                            else b = text)) names bodies"
      and w: "newFile st' = newFile st2 @ concat (map2 (\<lambda>n b. toPrepend n @ b) names bodies)"
      by blast
    have "\<exists>s s'. libraryLines ap target s (readlines libText) = Inr s' \<and> newFile s' = newFile s @ b0"
      using l b0 by blast
    then show ?thesis
      using f t b w b0 True by (intro exI [of _ "b0 # bodies"]) simp
  qed
qed

lemma sourceLines_names:
  assumes "\<forall>l \<in> set ls. \<not> startswith (strip l) ''#IF ''"
    and "\<not> skipLines st"
    and "sourceLines ap target st ls = Inr st'"
  shows "libNamesToInclude st' =
           libNamesToInclude st @ map (\<lambda>l. strip (last (split l ''#include'')))
                                      (filter (\<lambda>l. startswith (strip l) ''#include'') ls)
         \<and> \<not> skipLines st'"
  using assms
proof (induction ls arbitrary: st)
  case Nil
  then show ?case by simp
next
  case (Cons l ls)
  from Cons.prems(3) obtain s1 where 1: "sourceLine ap target st l = Inr s1"
    and 2: "sourceLines ap target s1 ls = Inr st'"
    by (auto split: sum.splits)
  from Cons.prems(1) have nif: "\<not> startswith (strip l) ''#IF ''" by simp
  have s1: "\<not> skipLines s1
      \<and> libNamesToInclude s1 = libNamesToInclude st @
           (if startswith (strip l) ''#include'' then [strip (last (split l ''#include''))] else [])"
    using 1 nif Cons.prems(2)
    by (auto simp: sourceLine_def split: if_splits sum.splits)
  from Cons.prems(1) have "\<forall>l \<in> set ls. \<not> startswith (strip l) ''#IF ''" by simp
  from Cons.IH [OF this _ 2] s1 show ?case by simp
qed

lemma include_line_not_written:
  assumes "sourceLines ap target
             \<lparr>inIf = False, skipLines = False, libNamesToInclude = [], newFile = []\<rparr> pre = Inr s"
    and "startswith (strip l) ''#include''"
  shows "\<exists>s'. sourceLine ap target s l = Inr s' \<and> newFile s' = newFile s"
proof -
  have inv: "skipLines s \<longrightarrow> inIf s"
    using sourceLines_flags [OF assms(1)] by simp
  have "\<not> startswith (strip l) ''#IF ''" "\<not> startswith (strip l) ''#ENDIF''"
    using assms(2) startswith_IF_not_include startswith_ENDIF_not_include by blast+
  with inv assms(2) show ?thesis
    by (simp add: sourceLine_def)
qed

lemma sourceLine_flags_eq:
  "sourceLine ap target s l = Inr s' \<Longrightarrow> inIf s = skipLines s \<Longrightarrow> inIf s' = skipLines s'"
  using checkCondition_never_True [of ap l target]
  by (auto simp: sourceLine_def split: if_splits sum.splits)

lemma sourceLines_flags_eq:
  "sourceLines ap target s ls = Inr s' \<Longrightarrow> inIf s = skipLines s \<Longrightarrow> inIf s' = skipLines s'"
proof (induction ls arbitrary: s)
  case Nil
  then show ?case by simp
next
  case (Cons l ls)
  then show ?case
    by (auto split: sum.splits dest: sourceLine_flags_eq)
qed

lemma libraryLine_flags_eq:
  "libraryLine ap target s l = Inr s' \<Longrightarrow> inIf s = skipLines s \<Longrightarrow> inIf s' = skipLines s'"
  using checkCondition_never_True [of ap l target]
  by (auto simp: libraryLine_def split: if_splits sum.splits)

lemma libraryLines_flags_eq:
  "libraryLines ap target s ls = Inr s' \<Longrightarrow> inIf s = skipLines s \<Longrightarrow> inIf s' = skipLines s'"
proof (induction ls arbitrary: s)
  case Nil
  then show ?case by simp
next
  case (Cons l ls)
  then show ?case
    by (auto split: sum.splits dest: libraryLine_flags_eq)
qed

lemma sourceLines_collected:
  "sourceLines ap target s ls = Inr s' \<Longrightarrow>
     libNamesToInclude s' =
       libNamesToInclude s
         @ collected (\<lambda>l. checkConditionFromLine ap l target = Inr True) (skipLines s) ls"
proof (induction ls arbitrary: s)
  case Nil
  then show ?case by simp
next
  case (Cons l ls)
  from Cons.prems obtain s1 where 1: "sourceLine ap target s l = Inr s1"
    and 2: "sourceLines ap target s1 ls = Inr s'"
    by (auto split: sum.splits)
  from 1 have "libNamesToInclude s1
         @ collected (\<lambda>l. checkConditionFromLine ap l target = Inr True) (skipLines s1) ls
      = libNamesToInclude s
         @ collected (\<lambda>l. checkConditionFromLine ap l target = Inr True) (skipLines s) (l # ls)"
    by (auto simp: sourceLine_def split: if_splits sum.splits)
  with Cons.IH [OF 2] show ?case by simp
qed

lemma collected_no_IF:
  "\<forall>l \<in> set ls. \<not> startswith (strip l) ''#IF '' \<Longrightarrow>
     collected holds False ls =
       map (\<lambda>l. strip (last (split l ''#include'')))
           (filter (\<lambda>l. startswith (strip l) ''#include'') ls)"
  by (induction ls) auto

lemma libraryLine_frame:
  "libraryLine ap target (s\<lparr>libNamesToInclude := N, newFile := X @ newFile s\<rparr>) l =
     map_sum id (\<lambda>s'. s'\<lparr>libNamesToInclude := N, newFile := X @ newFile s'\<rparr>)
       (libraryLine ap target s l)"
  by (auto simp: libraryLine_def split: sum.splits)

lemma libraryLines_frame:
  "libraryLines ap target (s\<lparr>libNamesToInclude := N, newFile := X @ newFile s\<rparr>) ls =
     map_sum (\<lambda>(e, s'). (e, s'\<lparr>libNamesToInclude := N, newFile := X @ newFile s'\<rparr>))
             (\<lambda>s'. s'\<lparr>libNamesToInclude := N, newFile := X @ newFile s'\<rparr>)
       (libraryLines ap target s ls)"
proof (induction ls arbitrary: s)
  case Nil
  then show ?case by simp
next
  case (Cons l ls)
  show ?case
  proof (cases "libraryLine ap target s l")
    case (Inl e)
    then show ?thesis by (simp add: libraryLine_frame)
  next
    case (Inr s1)
    with Cons.IH [of s1] show ?thesis by (simp add: libraryLine_frame)
  qed
qed

lemma includeLibraries_texts:
  "includeLibraries ap fs target pl s names = Inr s' \<Longrightarrow>
     \<exists>texts. list_all2 (\<lambda>n t. \<exists>f. map_of libraries n = Some f
                               \<and> fs (path_join LIB_DIR f) = Some t) names texts"
proof (induction names arbitrary: s)
  case Nil
  then show ?case by simp
next
  case (Cons n names)
  from Cons.prems obtain f where f: "map_of libraries n = Some f"
    by (auto simp: getitem_def split: option.splits)
  from Cons.prems f obtain t where t: "fs (path_join LIB_DIR f) = Some t"
    by (auto simp: getitem_def open_read_def split: option.splits)
  from Cons.prems f t obtain s2 where "includeLibraries ap fs target pl s2 names = Inr s'"
    by (cases pl) (auto simp: getitem_def open_read_def split: sum.splits)
  from Cons.IH [OF this] obtain texts where
    "list_all2 (\<lambda>n t. \<exists>f. map_of libraries n = Some f
                               \<and> fs (path_join LIB_DIR f) = Some t) names texts"
    by blast
  with f t show ?case
    by (intro exI [of _ "t # texts"]) simp
qed

lemma includeLibraries_raw:
  assumes "includeLibraries ap fs target False s names = Inr s'"
    and "list_all2 (\<lambda>n t. \<exists>f. map_of libraries n = Some f
                               \<and> fs (path_join LIB_DIR f) = Some t) names texts"
  shows "newFile s' = newFile s @ concat (map2 (\<lambda>n t. toPrepend n @ t) names texts)"
  using assms
proof (induction names arbitrary: s texts)
  case Nil
  then show ?case by simp
next
  case (Cons n names)
  from Cons.prems(2) obtain t rest f where texts: "texts = t # rest"
    and f: "map_of libraries n = Some f" and t: "fs (path_join LIB_DIR f) = Some t"
    and r: "list_all2 (\<lambda>n t. \<exists>f. map_of libraries n = Some f
                               \<and> fs (path_join LIB_DIR f) = Some t) names rest"
    by (auto simp: list_all2_Cons1)
  from Cons.prems(1) f t have
    "includeLibraries ap fs target False (s\<lparr>newFile := newFile s @ toPrepend n @ t\<rparr>) names = Inr s'"
    by (simp add: getitem_def open_read_def)
  from Cons.IH [OF this r] texts show ?case by simp
qed

lemma includeLibraries_clean:
  assumes "includeLibraries ap fs target True s names = Inr s'"
    and "\<not> inIf s" "\<not> skipLines s"
    and "list_all2 (\<lambda>n t. \<exists>f. map_of libraries n = Some f
                               \<and> fs (path_join LIB_DIR f) = Some t) names texts"
    and "\<forall>t \<in> set texts. \<exists>r. libraryLines ap target
             \<lparr>inIf = False, skipLines = False, libNamesToInclude = [], newFile = []\<rparr>
             (readlines t) = Inr r \<and> \<not> skipLines r"
  shows "newFile s' = newFile s @ concat (map2 (\<lambda>n t. toPrepend n @ newFile (projr
           (libraryLines ap target
              \<lparr>inIf = False, skipLines = False, libNamesToInclude = [], newFile = []\<rparr>
              (readlines t)))) names texts)"
  using assms
proof (induction names arbitrary: s texts)
  case Nil
  then show ?case by simp
next
  case (Cons n names)
  let ?st0 = "\<lparr>inIf = False, skipLines = False, libNamesToInclude = [], newFile = []\<rparr>"
  from Cons.prems(4) obtain t rest f where texts: "texts = t # rest"
    and f: "map_of libraries n = Some f" and t: "fs (path_join LIB_DIR f) = Some t"
    and r: "list_all2 (\<lambda>n t. \<exists>f. map_of libraries n = Some f
                               \<and> fs (path_join LIB_DIR f) = Some t) names rest"
    by (auto simp: list_all2_Cons1)
  from Cons.prems(5) texts obtain r0 where
    r0: "libraryLines ap target ?st0 (readlines t) = Inr r0" and clean: "\<not> skipLines r0"
    by auto
  from libraryLines_flags_eq [OF r0] clean have clean': "\<not> inIf r0" by simp
  let ?X = "newFile s @ toPrepend n"
  have "s\<lparr>newFile := newFile s @ toPrepend n\<rparr>
          = ?st0\<lparr>libNamesToInclude := libNamesToInclude s, newFile := ?X @ newFile ?st0\<rparr>"
    using Cons.prems(2,3) by (cases s) simp
  then have "libraryLines ap target (s\<lparr>newFile := newFile s @ toPrepend n\<rparr>) (readlines t)
          = Inr (r0\<lparr>libNamesToInclude := libNamesToInclude s, newFile := ?X @ newFile r0\<rparr>)"
    by (simp only: libraryLines_frame r0) simp
  with Cons.prems(1) f t have next_run:
    "includeLibraries ap fs target True
       (r0\<lparr>libNamesToInclude := libNamesToInclude s, newFile := ?X @ newFile r0\<rparr>) names = Inr s'"
    by (simp add: getitem_def open_read_def)
  from Cons.prems(5) texts have "\<forall>t \<in> set rest. \<exists>r. libraryLines ap target ?st0 (readlines t) = Inr r
      \<and> \<not> skipLines r"
    by simp
  from Cons.IH [OF next_run _ _ r this] clean clean' r0 texts show ?case
    by simp
qed

text \<open>
  C4, as amended. When \<open>processFile\<close> returns normally:
  \<^item> no \<open>#include\<close> line of the source file adds to the written text, wherever it stands;
  \<^item> the names collected are those of the \<open>#include\<close> lines outside the skipped blocks, in the
    order of the lines and as often as they occur; in a source file with no \<open>#IF\<close> line they
    are the names of all its \<open>#include\<close> lines;
  \<^item> every collected name is in \<open>libraries\<close> and its file is there;
  \<^item> the destination holds the text written by the first loop followed, for each collected
    name in order, by the marker comment and a body;
  \<^item> without preprocessing of libraries, the body is the text of the library;
  \<^item> with it, when neither the source file nor a library ends inside a skipped block, the body
    is what the library gives when it is read from the initial flags.
\<close>

theorem include_two_phase:
  assumes "processFile ap src dst target pl w = Inr w'"
  shows "\<exists>srcText st texts.
      ((files w)(dst \<mapsto> [])) src = Some srcText
    \<and> sourceLines ap target
          \<lparr>inIf = False, skipLines = False, libNamesToInclude = [], newFile = []\<rparr>
          (readlines srcText) = Inr st
    \<and> (\<forall>pre l post s. readlines srcText = pre @ l # post
           \<and> startswith (strip l) ''#include''
           \<and> sourceLines ap target
                \<lparr>inIf = False, skipLines = False, libNamesToInclude = [], newFile = []\<rparr> pre = Inr s
          \<longrightarrow> (\<exists>s'. sourceLine ap target s l = Inr s' \<and> newFile s' = newFile s))
    \<and> libNamesToInclude st =
        collected (\<lambda>l. checkConditionFromLine ap l target = Inr True) False (readlines srcText)
    \<and> ((\<forall>l \<in> set (readlines srcText). \<not> startswith (strip l) ''#IF '')
          \<longrightarrow> libNamesToInclude st =
                map (\<lambda>l. strip (last (split l ''#include'')))
                    (filter (\<lambda>l. startswith (strip l) ''#include'') (readlines srcText)))
    \<and> list_all2 (\<lambda>n t. \<exists>f. map_of libraries n = Some f
                        \<and> ((files w)(dst \<mapsto> [])) (path_join LIB_DIR f) = Some t)
          (libNamesToInclude st) texts
    \<and> (\<exists>bodies. length bodies = length (libNamesToInclude st)
          \<and> files w' dst =
              Some (newFile st
                      @ concat (map2 (\<lambda>n b. toPrepend n @ b) (libNamesToInclude st) bodies)))
    \<and> (\<not> pl \<longrightarrow>
          files w' dst =
            Some (newFile st @ concat (map2 (\<lambda>n t. toPrepend n @ t) (libNamesToInclude st) texts)))
    \<and> (pl \<and> \<not> skipLines st
          \<and> (\<forall>t \<in> set texts. \<exists>r. libraryLines ap target
                  \<lparr>inIf = False, skipLines = False, libNamesToInclude = [], newFile = []\<rparr>
                  (readlines t) = Inr r \<and> \<not> skipLines r)
        \<longrightarrow> files w' dst =
              Some (newFile st @ concat (map2 (\<lambda>n t. toPrepend n @ newFile (projr
                      (libraryLines ap target
                         \<lparr>inIf = False, skipLines = False, libNamesToInclude = [], newFile = []\<rparr>
                         (readlines t))))
                    (libNamesToInclude st) texts)))"
proof -
  let ?fs = "(files w)(dst \<mapsto> [])"
  let ?st0 = "\<lparr>inIf = False, skipLines = False, libNamesToInclude = [], newFile = []\<rparr>"
  from assms obtain st' where body: "processFileBody ap ?fs src target pl = Inr st'"
    and out: "files w' dst = Some (newFile st')"
    by (auto simp: processFile_unfold split: sum.splits prod.splits)
  from body obtain srcText where src: "?fs src = Some srcText"
    by (auto simp: processFileBody_def open_read_def split: option.splits)
  with body obtain st where
    one: "sourceLines ap target ?st0 (readlines srcText) = Inr st"
    and two: "includeLibraries ap ?fs target pl st (libNamesToInclude st) = Inr st'"
    by (auto simp: processFileBody_def open_read_def split: sum.splits)
  from includeLibraries_texts [OF two] obtain texts where
    texts: "list_all2 (\<lambda>n t. \<exists>f. map_of libraries n = Some f
                        \<and> ?fs (path_join LIB_DIR f) = Some t) (libNamesToInclude st) texts"
    by blast
  from includeLibraries_written [OF two] obtain bodies where
    "length bodies = length (libNamesToInclude st)"
    "newFile st' =
       newFile st @ concat (map2 (\<lambda>n b. toPrepend n @ b) (libNamesToInclude st) bodies)"
    by (auto dest: list_all2_lengthD)
  with out have markers: "\<exists>bodies. length bodies = length (libNamesToInclude st)
          \<and> files w' dst =
              Some (newFile st
                      @ concat (map2 (\<lambda>n b. toPrepend n @ b) (libNamesToInclude st) bodies))"
    by auto
  have names: "libNamesToInclude st =
        collected (\<lambda>l. checkConditionFromLine ap l target = Inr True) False (readlines srcText)"
    using sourceLines_collected [OF one] by simp
  have plain: "libNamesToInclude st =
                map (\<lambda>l. strip (last (split l ''#include'')))
                    (filter (\<lambda>l. startswith (strip l) ''#include'') (readlines srcText))"
    if "\<forall>l \<in> set (readlines srcText). \<not> startswith (strip l) ''#IF ''"
    using names collected_no_IF [OF that] by simp
  have consumed: "\<exists>s'. sourceLine ap target s l = Inr s' \<and> newFile s' = newFile s"
    if "startswith (strip l) ''#include''" "sourceLines ap target ?st0 pre = Inr s" for pre l s
    using include_line_not_written [OF that(2) that(1)] .
  have raw: "files w' dst =
            Some (newFile st @ concat (map2 (\<lambda>n t. toPrepend n @ t) (libNamesToInclude st) texts))"
    if "\<not> pl"
  proof -
    from two that have "includeLibraries ap ?fs target False st (libNamesToInclude st) = Inr st'"
      by simp
    from includeLibraries_raw [OF this texts] out show ?thesis by simp
  qed
  have resolved: "files w' dst =
              Some (newFile st @ concat (map2 (\<lambda>n t. toPrepend n @ newFile (projr
                      (libraryLines ap target ?st0 (readlines t))))
                    (libNamesToInclude st) texts))"
    if pl "\<not> skipLines st"
      "\<forall>t \<in> set texts. \<exists>r. libraryLines ap target ?st0 (readlines t) = Inr r \<and> \<not> skipLines r"
  proof -
    from sourceLines_flags_eq [OF one] that(2) have nin: "\<not> inIf st" by simp
    from two that(1)
    have run2: "includeLibraries ap ?fs target True st (libNamesToInclude st) = Inr st'"
      by simp
    from includeLibraries_clean [OF run2 nin that(2) texts that(3)] out show ?thesis
      by simp
  qed
  show ?thesis
    using src one texts markers names plain consumed raw resolved
    by (intro exI [of _ srcText] exI [of _ st] exI [of _ texts]) blast
qed

theorem include_two_phase_witness:
  "\<exists>w'. processFile (\<lambda>s. Inr ()) ''apps/a.groovy'' ''full/a.groovy'' COCOHUE True
      \<lparr>files = [''apps/a.groovy'' \<mapsto>
           ''a\<newline>#include RMoRobert.CoCoHue_Bri_Lib\<newline>b\<newline>#include RMoRobert.CoCoHue_Bri_Lib\<newline>'',
                ''libraries/cocohue-library-bri.groovy'' \<mapsto> ''x\<newline>''],
         stdout = [], totalProcessed = 0\<rparr> = Inr w'
    \<and> files w' ''full/a.groovy'' =
         Some (''a\<newline>b\<newline>'' @ concat (map2 (\<lambda>n t. toPrepend n @ newFile (projr
                      (libraryLines (\<lambda>s. Inr ()) COCOHUE
                         \<lparr>inIf = False, skipLines = False, libNamesToInclude = [], newFile = []\<rparr>
                         (readlines t))))
                 [''RMoRobert.CoCoHue_Bri_Lib'', ''RMoRobert.CoCoHue_Bri_Lib'']
                 [''x\<newline>'', ''x\<newline>'']))
    \<and> files w' ''full/a.groovy'' =
         Some (''a\<newline>b\<newline>'' @ toPrepend ''RMoRobert.CoCoHue_Bri_Lib'' @ ''x\<newline>''
                 @ toPrepend ''RMoRobert.CoCoHue_Bri_Lib'' @ ''x\<newline>'')"
proof -
  let ?src = "''a\<newline>#include RMoRobert.CoCoHue_Bri_Lib\<newline>b\<newline>#include RMoRobert.CoCoHue_Bri_Lib\<newline>''"
  let ?w = "\<lparr>files = [''apps/a.groovy'' \<mapsto> ?src,
                ''libraries/cocohue-library-bri.groovy'' \<mapsto> ''x\<newline>''],
         stdout = [], totalProcessed = 0\<rparr>"
  let ?fs = "(files ?w)(''full/a.groovy'' \<mapsto> [])"
  let ?st0 = "\<lparr>inIf = False, skipLines = False, libNamesToInclude = [], newFile = []\<rparr>"
  let ?names = "[''RMoRobert.CoCoHue_Bri_Lib'', ''RMoRobert.CoCoHue_Bri_Lib'']"
  let ?out = "''a\<newline>b\<newline>'' @ toPrepend ''RMoRobert.CoCoHue_Bri_Lib'' @ ''x\<newline>''
                 @ toPrepend ''RMoRobert.CoCoHue_Bri_Lib'' @ ''x\<newline>''"
  let ?w' = "?w\<lparr>stdout := stdout ?w @ [''  PROCESSING: '' @ ''apps/a.groovy'' @ '' -> '' @ ''full/a.groovy''],
              files := (files ?w)(''full/a.groovy'' \<mapsto> ?out)\<rparr>"
  have body: "processFileBody (\<lambda>s. Inr ()) ?fs ''apps/a.groovy'' COCOHUE True
      = Inr \<lparr>inIf = False, skipLines = False, libNamesToInclude = ?names, newFile = ?out\<rparr>"
    by code_simp
  have run: "processFile (\<lambda>s. Inr ()) ''apps/a.groovy'' ''full/a.groovy'' COCOHUE True ?w = Inr ?w'"
    unfolding processFile_unfold body by simp
  have one: "sourceLines (\<lambda>s. Inr ()) COCOHUE ?st0 (readlines ?src)
      = Inr \<lparr>inIf = False, skipLines = False, libNamesToInclude = ?names, newFile = ''a\<newline>b\<newline>''\<rparr>"
    by code_simp
  have lib: "libraryLines (\<lambda>s. Inr ()) COCOHUE ?st0 (readlines ''x\<newline>'')
      = Inr \<lparr>inIf = False, skipLines = False, libNamesToInclude = [], newFile = ''x\<newline>''\<rparr>"
    by code_simp
  have reg: "map_of libraries ''RMoRobert.CoCoHue_Bri_Lib'' = Some ''cocohue-library-bri.groovy''"
    by code_simp
  have path: "path_join LIB_DIR ''cocohue-library-bri.groovy'' = ''libraries/cocohue-library-bri.groovy''"
    by code_simp
  from include_two_phase [OF run] obtain srcText st texts where
    s: "?fs ''apps/a.groovy'' = Some srcText"
    and st: "sourceLines (\<lambda>s. Inr ()) COCOHUE ?st0 (readlines srcText) = Inr st"
    and l: "list_all2 (\<lambda>n t. \<exists>f. map_of libraries n = Some f
                        \<and> ?fs (path_join LIB_DIR f) = Some t) (libNamesToInclude st) texts"
    and r: "True \<and> \<not> skipLines st
          \<and> (\<forall>t \<in> set texts. \<exists>r. libraryLines (\<lambda>s. Inr ()) COCOHUE ?st0 (readlines t) = Inr r
                 \<and> \<not> skipLines r)
        \<longrightarrow> files ?w' ''full/a.groovy'' =
              Some (newFile st @ concat (map2 (\<lambda>n t. toPrepend n @ newFile (projr
                      (libraryLines (\<lambda>s. Inr ()) COCOHUE ?st0 (readlines t))))
                    (libNamesToInclude st) texts))"
    by blast
  from s have "srcText = ?src" by simp
  with st one have st': "st = \<lparr>inIf = False, skipLines = False, libNamesToInclude = ?names,
      newFile = ''a\<newline>b\<newline>''\<rparr>"
    by simp
  from l st' reg path have texts: "texts = [''x\<newline>'', ''x\<newline>'']"
    by (auto simp: list_all2_Cons1)
  from r st' texts lib have "files ?w' ''full/a.groovy'' =
              Some (''a\<newline>b\<newline>'' @ concat (map2 (\<lambda>n t. toPrepend n @ newFile (projr
                      (libraryLines (\<lambda>s. Inr ()) COCOHUE ?st0 (readlines t))))
                    ?names [''x\<newline>'', ''x\<newline>'']))"
    by simp
  moreover have "files ?w' ''full/a.groovy'' = Some ?out"
    by simp
  ultimately show ?thesis
    using run by (intro exI [of _ ?w']) (simp only: simp_thms)
qed

text \<open>
  The claim as stated fails for an \<open>#include\<close> line inside a skipped block: the library it names
  is registered and its file is there, but the name is not collected, by the guard on
  \<open>skipLines\<close>, and neither comment nor content is appended. The destination is empty.
\<close>

theorem skipped_include_not_appended_counterexample:
  "\<not> isl (processFile (\<lambda>s. Inr ()) ''apps/a.groovy'' ''full/a.groovy'' COCOHUE True
      \<lparr>files = [''apps/a.groovy'' \<mapsto>
           ''#IF __DNI_PREFIX__ == \"XXX\"\<newline>#include RMoRobert.CoCoHue_Bri_Lib\<newline>#ENDIF\<newline>'',
                ''libraries/cocohue-library-bri.groovy'' \<mapsto> ''x\<newline>''],
         stdout = [], totalProcessed = 0\<rparr>)
   \<and> files (projr (processFile (\<lambda>s. Inr ()) ''apps/a.groovy'' ''full/a.groovy'' COCOHUE True
      \<lparr>files = [''apps/a.groovy'' \<mapsto>
           ''#IF __DNI_PREFIX__ == \"XXX\"\<newline>#include RMoRobert.CoCoHue_Bri_Lib\<newline>#ENDIF\<newline>'',
                ''libraries/cocohue-library-bri.groovy'' \<mapsto> ''x\<newline>''],
         stdout = [], totalProcessed = 0\<rparr>)) ''full/a.groovy'' = Some []
   \<and> startswith (strip ''#include RMoRobert.CoCoHue_Bri_Lib\<newline>'') ''#include''
   \<and> map_of libraries ''RMoRobert.CoCoHue_Bri_Lib'' = Some ''cocohue-library-bri.groovy''"
proof -
  let ?w = "\<lparr>files = [''apps/a.groovy'' \<mapsto>
           ''#IF __DNI_PREFIX__ == \"XXX\"\<newline>#include RMoRobert.CoCoHue_Bri_Lib\<newline>#ENDIF\<newline>'',
                ''libraries/cocohue-library-bri.groovy'' \<mapsto> ''x\<newline>''],
         stdout = [], totalProcessed = 0\<rparr>"
  have body: "processFileBody (\<lambda>s. Inr ()) ((files ?w)(''full/a.groovy'' \<mapsto> [])) ''apps/a.groovy''
        COCOHUE True
      = Inr \<lparr>inIf = False, skipLines = False, libNamesToInclude = [], newFile = []\<rparr>"
    by code_simp
  have run: "\<not> isl (processFile (\<lambda>s. Inr ()) ''apps/a.groovy'' ''full/a.groovy'' COCOHUE True ?w)
    \<and> files (projr (processFile (\<lambda>s. Inr ()) ''apps/a.groovy'' ''full/a.groovy'' COCOHUE True ?w))
         ''full/a.groovy'' = Some []"
    unfolding processFile_unfold body by simp
  have i: "startswith (strip ''#include RMoRobert.CoCoHue_Bri_Lib\<newline>'') ''#include''"
    by code_simp
  have m: "map_of libraries ''RMoRobert.CoCoHue_Bri_Lib'' = Some ''cocohue-library-bri.groovy''"
    by code_simp
  from run i m show ?thesis by blast
qed

section \<open>Lookup failures\<close>

lemma checkCondition_KeyError:
  assumes "\<forall>s. ast_parse s \<noteq> Inl KeyError"
  shows "checkConditionFromLine ast_parse line target = Inl KeyError \<longleftrightarrow>
           (\<exists>lhs rhs. split (strip (replace line ''#IF '' '''')) ''=='' = [lhs, rhs]
              \<and> (case map_of CONSTANTS (strip lhs) of
                    None \<Rightarrow> True
                  | Some byTarget \<Rightarrow> map_of byTarget target = None))"
  using assms
  by (auto simp: checkConditionFromLine_def getitem_def split: list.splits option.splits sum.splits)

lemma replaceConstants_error:
  "replaceConstants ks target s = Inl e \<Longrightarrow> e = KeyError"
  by (induction ks arbitrary: s) (auto simp: getitem_def split: option.splits)

lemma replaceConstants_fails_iff:
  "(\<exists>e. replaceConstants ks target s = Inl e) \<longleftrightarrow>
     (\<exists>c \<in> set ks. case map_of CONSTANTS c of
                      None \<Rightarrow> True
                    | Some byTarget \<Rightarrow> map_of byTarget target = None)"
  by (induction ks arbitrary: s) (auto simp: getitem_def split: option.splits)

lemma processConstants_KeyError:
  "processConstants line target = Inl KeyError \<longleftrightarrow>
     (\<exists>c \<in> set CONSTANT_KEYS. contains c line)
   \<and> (\<exists>c \<in> set CONSTANT_KEYS. case map_of CONSTANTS c of
                      None \<Rightarrow> True
                    | Some byTarget \<Rightarrow> map_of byTarget target = None)"
  using replaceConstants_fails_iff [of CONSTANT_KEYS target line]
    replaceConstants_error [of CONSTANT_KEYS target line]
  by (auto simp: processConstants_def)

lemma CONSTANT_KEYS_known: "c \<in> set CONSTANT_KEYS \<Longrightarrow> \<exists>byTarget. map_of CONSTANTS c = Some byTarget"
  unfolding CONSTANT_KEYS_def by (cases "map_of CONSTANTS c") (auto simp: map_of_eq_None_iff)

text \<open>
  C7, as amended. Provided \<open>ast.parse\<close> itself raises no \<open>KeyError\<close>: a line of the source
  loop raises \<open>KeyError\<close> exactly when it is not taken as an \<open>#include\<close> and either it is an
  \<open>#IF\<close> line with exactly one \<open>==\<close> whose left-hand side is not in \<open>CONSTANTS\<close> or has no
  value for the target, or it is a line to be written that contains a placeholder while some
  constant has no value for the target; the same holds for a line of the library loop. An error
  raised by a line ends the loop with the locals as they were before that line, so nothing is
  written for it and the lines after it are not read. A collected name that is not in
  \<open>libraries\<close> ends the second loop with \<open>KeyError\<close> before anything is written for it. And a
  file whose \<open>processFile\<close> raises ends the run: the files after it are not processed and the
  counter is not incremented.
\<close>

theorem lookup_failure_aborts:
  assumes "\<forall>s. ast_parse s \<noteq> Inl KeyError"
  shows "(sourceLine ast_parse target st line = Inl KeyError \<longleftrightarrow>
            \<not> (startswith (strip line) ''#include'' \<and> \<not> skipLines st)
          \<and> (if startswith (strip line) ''#IF '' then
                \<exists>lhs rhs. split (strip (replace line ''#IF '' '''')) ''=='' = [lhs, rhs]
                  \<and> (case map_of CONSTANTS (strip lhs) of
                        None \<Rightarrow> True
                      | Some byTarget \<Rightarrow> map_of byTarget target = None)
              else \<not> startswith (strip line) ''#ENDIF'' \<and> \<not> (inIf st \<and> skipLines st)
                \<and> (\<exists>c \<in> set CONSTANT_KEYS. contains c line)
                \<and> (\<exists>c \<in> set CONSTANT_KEYS. \<exists>byTarget.
                      map_of CONSTANTS c = Some byTarget \<and> map_of byTarget target = None)))
       \<and> (libraryLine ast_parse target st line = Inl KeyError \<longleftrightarrow>
            (if startswith (strip line) ''#IF '' then
                \<exists>lhs rhs. split (strip (replace line ''#IF '' '''')) ''=='' = [lhs, rhs]
                  \<and> (case map_of CONSTANTS (strip lhs) of
                        None \<Rightarrow> True
                      | Some byTarget \<Rightarrow> map_of byTarget target = None)
              else \<not> startswith (strip line) ''#ENDIF'' \<and> \<not> (inIf st \<and> skipLines st)
                \<and> (\<exists>c \<in> set CONSTANT_KEYS. contains c line)
                \<and> (\<exists>c \<in> set CONSTANT_KEYS. \<exists>byTarget.
                      map_of CONSTANTS c = Some byTarget \<and> map_of byTarget target = None)))
       \<and> (\<forall>e rest. sourceLine ast_parse target st line = Inl e \<longrightarrow>
             sourceLines ast_parse target st (line # rest) = Inl (e, st))
       \<and> (\<forall>e rest. libraryLine ast_parse target st line = Inl e \<longrightarrow>
             libraryLines ast_parse target st (line # rest) = Inl (e, st))
       \<and> (map_of libraries libName = None \<longrightarrow>
             includeLibraries ast_parse fs target pl st (libName # names) = Inl (KeyError, st))
       \<and> (\<forall>e w'. processFile ast_parse (path_join srcDir file) (path_join outDir file) target True w
                    = Inl (e, w') \<longrightarrow>
             processAll ast_parse srcDir outDir target (file # rest) w = Inl (e, w')
           \<and> totalProcessed w' = totalProcessed w)"
proof -
  let ?A = "\<exists>lhs rhs. split (strip (replace line ''#IF '' '''')) ''=='' = [lhs, rhs]
                  \<and> (case map_of CONSTANTS (strip lhs) of
                        None \<Rightarrow> True
                      | Some byTarget \<Rightarrow> map_of byTarget target = None)"
  let ?B = "(\<exists>c \<in> set CONSTANT_KEYS. contains c line)
                \<and> (\<exists>c \<in> set CONSTANT_KEYS. \<exists>byTarget.
                      map_of CONSTANTS c = Some byTarget \<and> map_of byTarget target = None)"
  have chk: "checkConditionFromLine ast_parse line target = Inl KeyError \<longleftrightarrow> ?A"
    using assms by (rule checkCondition_KeyError)
  have "(\<exists>c \<in> set CONSTANT_KEYS. case map_of CONSTANTS c of
                      None \<Rightarrow> True
                    | Some byTarget \<Rightarrow> map_of byTarget target = None)
        \<longleftrightarrow> (\<exists>c \<in> set CONSTANT_KEYS. \<exists>byTarget.
                      map_of CONSTANTS c = Some byTarget \<and> map_of byTarget target = None)"
  proof (intro bex_cong refl)
    fix c assume "c \<in> set CONSTANT_KEYS"
    then obtain byTarget where "map_of CONSTANTS c = Some byTarget"
      using CONSTANT_KEYS_known by blast
    then show "(case map_of CONSTANTS c of None \<Rightarrow> True
                | Some byTarget \<Rightarrow> map_of byTarget target = None)
             \<longleftrightarrow> (\<exists>byTarget. map_of CONSTANTS c = Some byTarget \<and> map_of byTarget target = None)"
      by simp
  qed
  then have pc: "processConstants line target = Inl KeyError \<longleftrightarrow> ?B"
    by (simp add: processConstants_KeyError)
  have src: "sourceLine ast_parse target st line = Inl KeyError \<longleftrightarrow>
            \<not> (startswith (strip line) ''#include'' \<and> \<not> skipLines st)
          \<and> (if startswith (strip line) ''#IF '' then ?A
              else \<not> startswith (strip line) ''#ENDIF'' \<and> \<not> (inIf st \<and> skipLines st) \<and> ?B)"
    unfolding chk [symmetric] pc [symmetric]
    by (auto simp: sourceLine_def split: sum.splits)
  have lib: "libraryLine ast_parse target st line = Inl KeyError \<longleftrightarrow>
            (if startswith (strip line) ''#IF '' then ?A
              else \<not> startswith (strip line) ''#ENDIF'' \<and> \<not> (inIf st \<and> skipLines st) \<and> ?B)"
    unfolding chk [symmetric] pc [symmetric]
    by (auto simp: libraryLine_def split: sum.splits)
  have stop: "processAll ast_parse srcDir outDir target (file # rest) w = Inl (e, w')
           \<and> totalProcessed w' = totalProcessed w"
    if "processFile ast_parse (path_join srcDir file) (path_join outDir file) target True w
                    = Inl (e, w')" for e w'
    using that by (auto simp: processFile_unfold split: sum.splits prod.splits)
  show ?thesis
    using src lib stop by (simp add: getitem_def)
qed

theorem lookup_failure_aborts_witness:
  "sourceLine (\<lambda>s. Inr ()) ''OTHER''
      \<lparr>inIf = False, skipLines = False, libNamesToInclude = [], newFile = ''a\<newline>''\<rparr>
      ''x __NAMESPACE__\<newline>'' = Inl KeyError
   \<and> sourceLines (\<lambda>s. Inr ()) ''OTHER''
      \<lparr>inIf = False, skipLines = False, libNamesToInclude = [], newFile = ''a\<newline>''\<rparr>
      [''x __NAMESPACE__\<newline>'', ''y\<newline>'']
     = Inl (KeyError, \<lparr>inIf = False, skipLines = False, libNamesToInclude = [], newFile = ''a\<newline>''\<rparr>)
   \<and> includeLibraries (\<lambda>s. Inr ()) Map.empty ''OTHER'' True
      \<lparr>inIf = False, skipLines = False, libNamesToInclude = [], newFile = ''a\<newline>''\<rparr>
      [''RMoRobert.Missing_Lib'']
     = Inl (KeyError, \<lparr>inIf = False, skipLines = False, libNamesToInclude = [], newFile = ''a\<newline>''\<rparr>)"
proof -
  let ?st = "\<lparr>inIf = False, skipLines = False, libNamesToInclude = [], newFile = ''a\<newline>''\<rparr>"
  let ?line = "''x __NAMESPACE__\<newline>''"
  have h: "\<forall>s. (\<lambda>s::string. (Inr () :: error + unit)) s \<noteq> Inl KeyError"
    by simp
  have d: "\<not> startswith (strip ?line) ''#include''" "\<not> startswith (strip ?line) ''#IF ''"
    "\<not> startswith (strip ?line) ''#ENDIF''"
    by code_simp+
  have p: "\<exists>c \<in> set CONSTANT_KEYS. contains c ?line"
    by code_simp
  have k: "''__NAMESPACE__'' \<in> set CONSTANT_KEYS"
    by code_simp
  have v: "map_of CONSTANTS ''__NAMESPACE__'' = Some [(COCOHUE, ''RMoRobert'')]"
    by code_simp
  have n: "map_of [(COCOHUE, ''RMoRobert'')] ''OTHER'' = None"
    by code_simp
  from k v n have b: "\<exists>c \<in> set CONSTANT_KEYS. \<exists>byTarget.
      map_of CONSTANTS c = Some byTarget \<and> map_of byTarget ''OTHER'' = None"
    by blast
  have r: "map_of libraries ''RMoRobert.Missing_Lib'' = None"
    by code_simp
  note t = lookup_failure_aborts [OF h, of "''OTHER''" ?st ?line "''RMoRobert.Missing_Lib''"
      Map.empty True "[]"]
  from t d p b have 1: "sourceLine (\<lambda>s. Inr ()) ''OTHER'' ?st ?line = Inl KeyError"
    by simp
  with t have 2: "sourceLines (\<lambda>s. Inr ()) ''OTHER'' ?st [?line, ''y\<newline>''] = Inl (KeyError, ?st)"
    by blast
  from t r have 3: "includeLibraries (\<lambda>s. Inr ()) Map.empty ''OTHER'' True ?st [''RMoRobert.Missing_Lib'']
     = Inl (KeyError, ?st)"
    by blast
  from 1 2 3 show ?thesis by blast
qed

text \<open>
  The claim as stated fails: these are not the only uncaught errors. The left-hand side below is
  a known constant, every constant has a value for the target and there is no \<open>#include\<close>, yet
  the run aborts, with \<open>ValueError\<close>: the line has two \<open>==\<close>, and the tuple assignment needs
  exactly two pieces.
\<close>

theorem other_errors_abort_counterexample:
  "isl (processFile (\<lambda>s. Inr ()) ''apps/a.groovy'' ''full/a.groovy'' COCOHUE True
          \<lparr>files = [''apps/a.groovy'' \<mapsto> ''#IF __DNI_PREFIX__ == \"CCH\" == \"CCH\"\<newline>''],
             stdout = [], totalProcessed = 0\<rparr>)
   \<and> fst (projl (processFile (\<lambda>s. Inr ()) ''apps/a.groovy'' ''full/a.groovy'' COCOHUE True
          \<lparr>files = [''apps/a.groovy'' \<mapsto> ''#IF __DNI_PREFIX__ == \"CCH\" == \"CCH\"\<newline>''],
             stdout = [], totalProcessed = 0\<rparr>)) = ValueError
   \<and> split (strip (replace ''#IF __DNI_PREFIX__ == \"CCH\" == \"CCH\"\<newline>'' ''#IF '' '''')) ''==''
       = [''__DNI_PREFIX__ '', '' \"CCH\" '', '' \"CCH\"'']
   \<and> map_of CONSTANTS ''__DNI_PREFIX__'' = Some [(COCOHUE, ''CCH'')]
   \<and> list_all (\<lambda>(c, byTarget). map_of byTarget COCOHUE \<noteq> None) CONSTANTS
   \<and> \<not> startswith (strip ''#IF __DNI_PREFIX__ == \"CCH\" == \"CCH\"\<newline>'') ''#include''"
proof -
  let ?w = "\<lparr>files = [''apps/a.groovy'' \<mapsto> ''#IF __DNI_PREFIX__ == \"CCH\" == \"CCH\"\<newline>''],
             stdout = [], totalProcessed = 0\<rparr>"
  have body: "processFileBody (\<lambda>s. Inr ()) ((files ?w)(''full/a.groovy'' \<mapsto> [])) ''apps/a.groovy'' COCOHUE True
      = Inl (ValueError, \<lparr>inIf = False, skipLines = False, libNamesToInclude = [], newFile = []\<rparr>)"
    by code_simp
  have run: "isl (processFile (\<lambda>s. Inr ()) ''apps/a.groovy'' ''full/a.groovy'' COCOHUE True ?w)
    \<and> fst (projl (processFile (\<lambda>s. Inr ()) ''apps/a.groovy'' ''full/a.groovy'' COCOHUE True ?w)) = ValueError"
    unfolding processFile_unfold body by simp
  have s: "split (strip (replace ''#IF __DNI_PREFIX__ == \"CCH\" == \"CCH\"\<newline>'' ''#IF '' '''')) ''==''
       = [''__DNI_PREFIX__ '', '' \"CCH\" '', '' \"CCH\"'']"
    by code_simp
  have c: "map_of CONSTANTS ''__DNI_PREFIX__'' = Some [(COCOHUE, ''CCH'')]"
    by code_simp
  have a: "list_all (\<lambda>(c, byTarget). map_of byTarget COCOHUE \<noteq> None) CONSTANTS"
    by code_simp
  have i: "\<not> startswith (strip ''#IF __DNI_PREFIX__ == \"CCH\" == \"CCH\"\<newline>'') ''#include''"
    by code_simp
  from run s c a i show ?thesis by blast
qed

section \<open>Prefixes and substrings\<close>

lemma startswith_Nil: "startswith s [] = True"
  by (simp add: startswith_def)

lemma startswith_Nil_Cons: "startswith [] (y # ys) = False"
  by (simp add: startswith_def)

lemma startswith_Cons_Cons: "startswith (x # xs) (y # ys) = (x = y \<and> startswith xs ys)"
  by (auto simp: startswith_def)

lemmas startswith_simps = startswith_Nil startswith_Nil_Cons startswith_Cons_Cons

lemma startswith_self: "startswith (p @ r) p"
  by (simp add: startswith_def)

lemma startswith_hd: "startswith s p \<Longrightarrow> p \<noteq> [] \<Longrightarrow> s \<noteq> [] \<and> hd s = hd p"
  by (cases s; cases p) (auto simp: startswith_simps)

lemma contains_Nil: "contains [] s"
  by (cases s) (simp_all add: startswith_simps)

lemma contains_startswith: "startswith s sub \<Longrightarrow> contains sub s"
  by (cases s; cases sub) (auto simp: startswith_simps)

lemma contains_mid: "contains u (p @ u @ q)"
proof (induction p)
  case Nil
  show ?case by (simp add: contains_startswith startswith_self)
next
  case (Cons a p)
  then show ?case by simp
qed

lemma startswith_length: "startswith s p \<Longrightarrow> length p \<le> length s"
  unfolding startswith_def by (metis take_all nat_le_linear)

lemma contains_length: "contains u s \<Longrightarrow> length u \<le> length s"
  by (induction s) (auto dest: startswith_length)

lemma contains_drop: "contains t (drop k s) \<Longrightarrow> contains t s"
proof (induction s arbitrary: k)
  case Nil
  then show ?case by simp
next
  case (Cons x xs)
  then show ?case by (cases k) auto
qed

lemma contains_skip:
  assumes "t \<noteq> []" "hd t \<notin> set v"
  shows "contains t (v @ r) \<Longrightarrow> contains t r"
  using assms
proof (induction v)
  case Nil
  then show ?case by simp
next
  case (Cons a v)
  from Cons.prems(2,3) have "\<not> startswith (a # v @ r) t"
    using startswith_hd [of "a # v @ r" t] by auto
  with Cons show ?case by simp
qed

text \<open>
  A value without underscore that does not occur inside \<open>c\<close> cannot be where an end piece of
  \<open>c\<close> starts, \<open>c\<close> ending with an underscore.
\<close>

lemma no_overlap:
  assumes s: "startswith (u @ r) c'" and ne: "c' \<noteq> []" and c: "c = p @ c'"
    and l: "last c = CHR ''_''" and u: "CHR ''_'' \<notin> set u" and n: "\<not> contains u c"
  shows False
proof (cases "length c' \<le> length u")
  case True
  with s have "c' = take (length c') u"
    by (simp add: startswith_def)
  then have "set c' \<subseteq> set u"
    by (metis set_take_subset)
  moreover from ne c l have "CHR ''_'' \<in> set c'"
    by (metis last_appendR last_in_set)
  ultimately show False
    using u by blast
next
  case False
  with s have "take (length u) c' = u"
    by (simp add: startswith_def) (metis append_eq_conv_conj nat_le_linear take_all take_append take_take min.absorb2)
  then have "c' = u @ drop (length u) c'"
    by (metis append_take_drop_id)
  with c have "c = p @ u @ drop (length u) c'"
    by simp
  then show False
    using n contains_mid by metis
qed

lemma find_append:
  "find P (xs @ ys) = (case find P xs of None \<Rightarrow> find P ys | Some x \<Rightarrow> Some x)"
  by (induction xs) simp_all

section \<open>One \<open>replace\<close>\<close>

lemma replace_scan_skip:
  assumes "c \<noteq> []" "hd c \<notin> set u"
  shows "replace_scan c v (u @ r) = u @ replace_scan c v r"
  using assms
proof (induction u)
  case Nil
  then show ?case by simp
next
  case (Cons a u)
  from Cons.prems have "\<not> startswith (a # u @ r) c"
    using startswith_hd [of "a # u @ r" c] by auto
  with Cons show ?case by simp
qed

lemma replace_scan_hit:
  assumes "c \<noteq> []"
  shows "replace_scan c v (c @ r) = v @ replace_scan c v r"
proof (cases c)
  case Nil
  with assms show ?thesis by simp
next
  case (Cons y c0)
  have "startswith (y # c0 @ r) (y # c0)"
    using startswith_self [of "y # c0" r] by simp
  then show ?thesis
    by (simp add: Cons)
qed

lemma replace_scan_startswith:
  assumes v: "CHR ''_'' \<notin> set v" "\<not> contains v t" and l: "last t = CHR ''_''"
  shows "startswith (replace_scan c v s) t' \<Longrightarrow> t = p @ t' \<Longrightarrow> t' \<noteq> [] \<Longrightarrow>
           startswith s t' \<and> \<not> startswith s c"
proof (induction s arbitrary: t' p)
  case Nil
  then show ?case by (cases t') (simp_all add: startswith_simps)
next
  case (Cons x xs)
  from Cons.prems(3) obtain y t'' where t': "t' = y # t''"
    by (cases t') auto
  show ?case
  proof (cases "startswith (x # xs) c")
    case True
    with Cons.prems(1) have "startswith (v @ replace_scan c v (drop (length c - 1) xs)) t'"
      by simp
    from no_overlap [OF this Cons.prems(3) Cons.prems(2) l v] show ?thesis ..
  next
    case False
    with Cons.prems(1) t' have xy: "x = y" and r: "startswith (replace_scan c v xs) t''"
      by (simp_all add: startswith_simps)
    show ?thesis
    proof (cases "t'' = []")
      case True
      with xy t' False show ?thesis by (simp add: startswith_simps)
    next
      case ne: False
      from Cons.prems(2) t' have "t = (p @ [y]) @ t''" by simp
      from Cons.IH [OF r this ne] have "startswith xs t''" by simp
      with xy t' False show ?thesis by (simp add: startswith_simps)
    qed
  qed
qed

lemma replace_scan_contains:
  assumes v: "CHR ''_'' \<notin> set v" "\<not> contains v t" and l: "last t = CHR ''_''"
    and h: "hd t = CHR ''_''" and ne: "t \<noteq> []"
  shows "contains t (replace_scan c v s) \<Longrightarrow> contains t s \<and> t \<noteq> c"
proof (induction s rule: length_induct)
  case (1 s)
  show ?case
  proof (cases s)
    case Nil
    with "1.prems" ne show ?thesis by simp
  next
    case (Cons x xs)
    show ?thesis
    proof (cases "startswith (x # xs) c")
      case True
      with "1.prems" Cons have cv: "contains t (v @ replace_scan c v (drop (length c - 1) xs))"
        by simp
      have hv: "hd t \<notin> set v"
        using h v(1) by simp
      have "contains t (replace_scan c v (drop (length c - 1) xs))"
        by (rule contains_skip [OF ne hv cv])
      moreover have "length (drop (length c - 1) xs) < length s"
        using Cons by simp
      ultimately have "contains t (drop (length c - 1) xs) \<and> t \<noteq> c"
        using "1.IH" by blast
      then show ?thesis
        using Cons by (auto dest: contains_drop)
    next
      case False
      with "1.prems" Cons have
        "startswith (replace_scan c v (x # xs)) t \<or> contains t (replace_scan c v xs)"
        by simp
      then show ?thesis
      proof
        assume s: "startswith (replace_scan c v (x # xs)) t"
        have "t = [] @ t" by simp
        from replace_scan_startswith [OF v l s this ne]
        show ?thesis
          using Cons by (auto simp: contains_startswith)
      next
        assume "contains t (replace_scan c v xs)"
        moreover have "length xs < length s"
          using Cons by simp
        ultimately have "contains t xs \<and> t \<noteq> c"
          using "1.IH" by blast
        then show ?thesis
          using Cons by simp
      qed
    qed
  qed
qed

lemma replace_scan_none: "\<not> contains c s \<Longrightarrow> replace_scan c v s = s"
  by (induction s) auto

section \<open>The pass of the specification\<close>

lemma substitute_Nil: "substitute [] s = s"
  by (induction s) simp_all

lemma absent_Suc: "absent d (Suc n) s = (s = [] \<or> (\<not> startswith s d \<and> absent d n (tl s)))"
  by (cases s) simp_all

text \<open>Where no placeholder of the table starts among the first \<open>k\<close> positions, they are kept.\<close>

lemma substitute_absent:
  assumes "\<forall>d \<in> fst ` set tbl. absent d k s"
  shows "substitute tbl s = take k s @ substitute tbl (drop k s)"
  using assms
proof (induction k arbitrary: s)
  case 0
  then show ?case by simp
next
  case (Suc k)
  show ?case
  proof (cases s)
    case Nil
    then show ?thesis by simp
  next
    case (Cons y ys)
    with Suc.prems have no: "\<forall>d \<in> fst ` set tbl. \<not> startswith (y # ys) d"
      and rest: "\<forall>d \<in> fst ` set tbl. absent d k ys"
      by simp_all
    from no have "find (\<lambda>(c, v). startswith (y # ys) c) tbl = None"
      by (force simp: find_None_iff)
    with Suc.IH [OF rest] Cons show ?thesis by simp
  qed
qed

text \<open>The pass cannot make a placeholder \<open>c\<close> start where it did not, the values being inert.\<close>

lemma substitute_startswith:
  assumes t: "\<forall>(d, u) \<in> set tbl. CHR ''_'' \<notin> set u \<and> \<not> contains u c" and l: "last c = CHR ''_''"
  shows "startswith (substitute tbl s) c' \<Longrightarrow> c = p @ c' \<Longrightarrow> startswith s c'"
proof (induction s arbitrary: c' p)
  case Nil
  then show ?case by simp
next
  case (Cons x xs)
  show ?case
  proof (cases c')
    case Nil
    then show ?thesis by (simp add: startswith_simps)
  next
    case c': (Cons y c'')
    show ?thesis
    proof (cases "find (\<lambda>(c, v). startswith (x # xs) c) tbl")
      case None
      with Cons.prems(1) c' have xy: "x = y" and r: "startswith (substitute tbl xs) c''"
        by (simp_all add: startswith_simps)
      from Cons.prems(2) c' have "c = (p @ [y]) @ c''" by simp
      from Cons.IH [OF r this] xy c' show ?thesis
        by (simp add: startswith_simps)
    next
      case (Some du)
      obtain d u where du: "du = (d, u)" by (cases du)
      with Some have "(d, u) \<in> set tbl"
        by (auto simp: find_Some_iff) (metis nth_mem)
      with t have u: "CHR ''_'' \<notin> set u" "\<not> contains u c" by auto
      from Cons.prems(1) Some du
      have "startswith (u @ substitute tbl (drop (length d - 1) xs)) c'"
        by simp
      moreover have "c' \<noteq> []" using c' by simp
      ultimately show ?thesis
        using no_overlap [OF _ _ Cons.prems(2) l u] by blast
    qed
  qed
qed

lemma separated_Cons:
  "separated keys (x # xs) \<longleftrightarrow>
     (\<forall>c \<in> set keys. startswith (x # xs) c \<longrightarrow>
        (\<forall>d \<in> set keys. (d \<noteq> c \<longrightarrow> \<not> startswith (x # xs) d) \<and> absent d (length c - 1) xs))
     \<and> separated keys xs"
proof -
  have *: "(if P then Q else True) = (P \<longrightarrow> Q)" "(if P then True else R) = (\<not> P \<longrightarrow> R)" for P Q R
    by simp_all
  show ?thesis
    by (simp only: separated.simps *)
qed

declare separated.simps(2) [simp del]

lemma separated_drop: "separated keys s \<Longrightarrow> separated keys (drop k s)"
proof (induction k arbitrary: s)
  case 0
  then show ?case by simp
next
  case (Suc k)
  show ?case
  proof (cases s)
    case Nil
    then show ?thesis by simp
  next
    case (Cons x xs)
    with Suc.prems have "separated keys xs"
      using separated_Cons by blast
    from Suc.IH [OF this] Cons show ?thesis by simp
  qed
qed

lemma separated_mono: "set keys' \<subseteq> set keys \<Longrightarrow> separated keys s \<Longrightarrow> separated keys' s"
proof (induction s)
  case Nil
  then show ?case by simp
next
  case (Cons x xs)
  from Cons.prems(2) have here: "\<forall>c \<in> set keys. startswith (x # xs) c \<longrightarrow>
        (\<forall>d \<in> set keys. (d \<noteq> c \<longrightarrow> \<not> startswith (x # xs) d) \<and> absent d (length c - 1) xs)"
    and rest: "separated keys xs"
    using separated_Cons [of keys x xs] by blast+
  from here Cons.prems(1) have "\<forall>c \<in> set keys'. startswith (x # xs) c \<longrightarrow>
        (\<forall>d \<in> set keys'. (d \<noteq> c \<longrightarrow> \<not> startswith (x # xs) d) \<and> absent d (length c - 1) xs)"
    by blast
  with Cons.IH [OF Cons.prems(1) rest] show ?case
    using separated_Cons [of keys' x xs] by blast
qed

lemma separated_inside:
  assumes "separated keys (x # xs)" "c \<in> set keys" "startswith (x # xs) c" "d \<in> set keys"
  shows "absent d (length c - 1) xs"
  using assms separated_Cons [of keys x xs] by blast

section \<open>All the passes of \<open>replace\<close> against the one pass\<close>

lemma inertD:
  assumes "inert tbl" "(c, v) \<in> set tbl"
  shows "c \<noteq> []" "hd c = CHR ''_''" "last c = CHR ''_''" "CHR ''_'' \<notin> set v"
    and "(d, u) \<in> set tbl \<Longrightarrow> \<not> contains v d"
proof -
  from assms(1) have "\<forall>cv \<in> set tbl. case cv of (c, v) \<Rightarrow>
      c \<noteq> [] \<and> hd c = CHR ''_'' \<and> last c = CHR ''_'' \<and> CHR ''_'' \<notin> set v
      \<and> (\<forall>du \<in> set tbl. case du of (d, u) \<Rightarrow>
            if length v \<le> length d then \<not> contains v d else True)"
    unfolding inert_def list_all_iff .
  from bspec [OF this assms(2)]
  have *: "c \<noteq> [] \<and> hd c = CHR ''_'' \<and> last c = CHR ''_'' \<and> CHR ''_'' \<notin> set v
      \<and> (\<forall>du \<in> set tbl. case du of (d, u) \<Rightarrow>
            if length v \<le> length d then \<not> contains v d else True)"
    by simp
  then show "c \<noteq> []" "hd c = CHR ''_''" "last c = CHR ''_''" "CHR ''_'' \<notin> set v"
    by simp_all
  show "\<not> contains v d" if "(d, u) \<in> set tbl"
  proof
    assume c: "contains v d"
    then have "length v \<le> length d" by (rule contains_length)
    moreover from * that have "if length v \<le> length d then \<not> contains v d else True"
      by blast
    ultimately show False using c by simp
  qed
qed

lemma inert_butlast: "inert (tbl @ [cv]) \<Longrightarrow> inert tbl"
  unfolding inert_def list_all_iff by auto

text \<open>One more placeholder in the table is one more \<open>replace\<close> after the pass.\<close>

lemma substitute_snoc:
  assumes c: "c \<noteq> []" "hd c = CHR ''_''" "last c = CHR ''_''"
    and t: "\<forall>(d, u) \<in> set tbl. CHR ''_'' \<notin> set u \<and> \<not> contains u c"
  shows "separated (map fst tbl @ [c]) s \<Longrightarrow>
           replace_scan c v (substitute tbl s) = substitute (tbl @ [(c, v)]) s"
proof (induction s rule: length_induct)
  case (1 s)
  show ?case
  proof (cases s)
    case Nil
    then show ?thesis by simp
  next
    case (Cons x xs)
    let ?keys = "map fst tbl @ [c]"
    let ?P = "\<lambda>(c, v). startswith (x # xs) c"
    have sep: "separated ?keys (x # xs)"
      using "1.prems" Cons by simp
    have IH: "replace_scan c v (substitute tbl (drop k xs)) = substitute (tbl @ [(c, v)]) (drop k xs)"
      for k
    proof -
      have "separated ?keys (drop (Suc k) (x # xs))"
        using sep by (rule separated_drop)
      moreover have "length (drop k xs) < length s"
        using Cons by simp
      ultimately show ?thesis
        using "1.IH" by simp
    qed
    show ?thesis
    proof (cases "find ?P tbl")
      case (Some du)
      obtain d u where du: "du = (d, u)" by (cases du)
      with Some have "(d, u) \<in> set tbl"
        by (auto simp: find_Some_iff) (metis nth_mem)
      with t c(2) have "hd c \<notin> set u" by auto
      from replace_scan_skip [OF c(1) this] IH [of "length d - 1"] Some du Cons
      show ?thesis
        by (simp add: find_append)
    next
      case None
      then have none: "\<forall>d \<in> fst ` set tbl. \<not> startswith (x # xs) d"
        by (force simp: find_None_iff)
      show ?thesis
      proof (cases "startswith (x # xs) c")
        case True
        have "\<forall>d \<in> fst ` set tbl. absent d (Suc (length c - 1)) (x # xs)"
        proof
          fix d assume d: "d \<in> fst ` set tbl"
          then have "d \<in> set ?keys" by simp
          from separated_inside [OF sep _ True this] have "absent d (length c - 1) xs"
            by simp
          moreover from none d have "\<not> startswith (x # xs) d"
            by blast
          ultimately show "absent d (Suc (length c - 1)) (x # xs)"
            by simp
        qed
        from substitute_absent [OF this] c(1)
        have "substitute tbl (x # xs) = take (length c) (x # xs) @ substitute tbl (drop (length c) (x # xs))"
          by (cases c) simp_all
        moreover from True have "take (length c) (x # xs) = c"
          by (simp add: startswith_def)
        moreover from c(1) have "drop (length c) (x # xs) = drop (length c - 1) xs"
          by (cases c) simp_all
        ultimately have "substitute tbl (x # xs) = c @ substitute tbl (drop (length c - 1) xs)"
          by simp
        with replace_scan_hit [OF c(1)] IH [of "length c - 1"] None True Cons
        show ?thesis
          by (simp add: find_append)
      next
        case False
        have "\<not> startswith (substitute tbl (x # xs)) c"
        proof
          assume "startswith (substitute tbl (x # xs)) c"
          moreover have "c = [] @ c" by simp
          ultimately have "startswith (x # xs) c"
            by (rule substitute_startswith [OF t c(3)])
          with False show False ..
        qed
        with None have "\<not> startswith (x # substitute tbl xs) c"
          by simp
        with IH [of 0] None False Cons show ?thesis
          by (simp add: find_append)
      qed
    qed
  qed
qed

text \<open>The loop of \<open>processConstants\<close>, over a table of placeholders with their values.\<close>

lemma foldl_replace_substitute:
  "inert tbl \<Longrightarrow> separated (map fst tbl) s \<Longrightarrow>
     foldl (\<lambda>s (c, v). replace s c v) s tbl = substitute tbl s"
proof (induction tbl rule: rev_induct)
  case Nil
  then show ?case by (simp add: substitute_Nil)
next
  case (snoc cv tbl)
  obtain c v where cv: "cv = (c, v)" by (cases cv)
  from snoc.prems(1) have i: "inert tbl" by (rule inert_butlast)
  from snoc.prems(2) have "separated (map fst tbl) s"
    by (rule separated_mono [rotated]) auto
  with snoc.IH i have IH: "foldl (\<lambda>s (c, v). replace s c v) s tbl = substitute tbl s"
    by simp
  have c: "c \<noteq> []" "hd c = CHR ''_''" "last c = CHR ''_''"
    using inertD(1-3) [OF snoc.prems(1), of c v] cv by simp_all
  have t: "\<forall>(d, u) \<in> set tbl. CHR ''_'' \<notin> set u \<and> \<not> contains u c"
  proof (intro ballI, clarify)
    fix d u assume "(d, u) \<in> set tbl"
    then have m: "(d, u) \<in> set (tbl @ [cv])" by simp
    have "(c, v) \<in> set (tbl @ [cv])" using cv by simp
    from inertD(4) [OF snoc.prems(1) m] inertD(5) [OF snoc.prems(1) m this]
    show "CHR ''_'' \<notin> set u \<and> \<not> contains u c" by simp
  qed
  from snoc.prems(2) cv have "separated (map fst tbl @ [c]) s" by simp
  from substitute_snoc [OF c t this, of v] IH cv c(1) show ?case
    by (simp add: replace_def)
qed

text \<open>No placeholder is left by the loop, and none is made.\<close>

lemma foldl_replace_contains:
  assumes t: "t \<noteq> []" "hd t = CHR ''_''" "last t = CHR ''_''"
  shows "\<forall>(c, v) \<in> set tbl. c \<noteq> [] \<and> CHR ''_'' \<notin> set v \<and> \<not> contains v t \<Longrightarrow>
         contains t (foldl (\<lambda>s (c, v). replace s c v) s tbl) \<Longrightarrow>
         contains t s \<and> t \<notin> fst ` set tbl"
proof (induction tbl arbitrary: s)
  case Nil
  then show ?case by simp
next
  case (Cons cv tbl)
  obtain c v where cv: "cv = (c, v)" by (cases cv)
  from Cons.prems(1) cv have v: "c \<noteq> []" "CHR ''_'' \<notin> set v" "\<not> contains v t"
    by simp_all
  from Cons.prems(1) have "\<forall>(c, v) \<in> set tbl. c \<noteq> [] \<and> CHR ''_'' \<notin> set v \<and> \<not> contains v t"
    by simp
  moreover from Cons.prems(2) cv
  have "contains t (foldl (\<lambda>s (c, v). replace s c v) (replace s c v) tbl)"
    by simp
  ultimately have r: "contains t (replace s c v)" and n: "t \<notin> fst ` set tbl"
    using Cons.IH by blast+
  from r v(1) have "contains t (replace_scan c v s)"
    by (simp add: replace_def)
  from replace_scan_contains [OF v(2,3) t(3,2,1) this] n cv show ?case
    by simp
qed

section \<open>\<open>processConstants\<close> for the target of the script\<close>

lemma replaceConstants_foldl:
  assumes "\<forall>(c, byTarget) \<in> set tbl. map_of CONSTANTS c = Some byTarget"
    and "\<forall>(c, byTarget) \<in> set tbl. map_of byTarget target \<noteq> None"
  shows "replaceConstants (map fst tbl) target s =
           Inr (foldl (\<lambda>s (c, v). replace s c v) s
                  (concat (map (\<lambda>(c, byTarget). case map_of byTarget target of
                                                     None \<Rightarrow> []
                                                   | Some v \<Rightarrow> [(c, v)]) tbl)))"
  using assms
proof (induction tbl arbitrary: s)
  case Nil
  then show ?case by simp
next
  case (Cons cb tbl)
  obtain c byTarget where cb: "cb = (c, byTarget)" by (cases cb)
  with Cons.prems obtain v where
    "map_of CONSTANTS c = Some byTarget" "map_of byTarget target = Some v"
    by auto
  moreover from Cons.prems have
    "\<forall>(c, byTarget) \<in> set tbl. map_of CONSTANTS c = Some byTarget"
    "\<forall>(c, byTarget) \<in> set tbl. map_of byTarget target \<noteq> None"
    by simp_all
  ultimately show ?case
    using Cons.IH cb by (simp add: getitem_def)
qed

lemma CONSTANTS_distinct: "distinct (map fst CONSTANTS)"
  by code_simp

lemma CONSTANTS_COCOHUE: "\<forall>(c, byTarget) \<in> set CONSTANTS. map_of byTarget COCOHUE \<noteq> None"
  by code_simp

lemma replaceConstants_COCOHUE:
  "replaceConstants CONSTANT_KEYS COCOHUE s =
     Inr (foldl (\<lambda>s (c, v). replace s c v) s (resolved COCOHUE))"
proof -
  have "\<forall>(c, byTarget) \<in> set CONSTANTS. map_of CONSTANTS c = Some byTarget"
    using CONSTANTS_distinct by (auto intro: map_of_is_SomeI)
  from replaceConstants_foldl [OF this CONSTANTS_COCOHUE] show ?thesis
    by (simp add: CONSTANT_KEYS_def resolved_def)
qed

lemma resolved_COCOHUE_keys: "map fst (resolved COCOHUE) = CONSTANT_KEYS"
  by code_simp

lemma resolved_COCOHUE_inert: "inert (resolved COCOHUE)"
  by code_simp

lemma foldl_replace_none:
  "\<forall>c \<in> fst ` set tbl. c \<noteq> [] \<and> \<not> contains c s \<Longrightarrow>
     foldl (\<lambda>s (c, v). replace s c v) s tbl = s"
  by (induction tbl) (auto simp: replace_def replace_scan_none)

lemma processConstants_COCOHUE:
  "processConstants line COCOHUE =
     Inr (foldl (\<lambda>s (c, v). replace s c v) line (resolved COCOHUE))"
proof (cases "\<exists>c \<in> set CONSTANT_KEYS. contains c line")
  case True
  then show ?thesis
    by (simp add: processConstants_def replaceConstants_COCOHUE)
next
  case False
  have "\<forall>c \<in> fst ` set (resolved COCOHUE). c \<noteq> [] \<and> \<not> contains c line"
  proof
    fix c assume c: "c \<in> fst ` set (resolved COCOHUE)"
    then obtain v where "(c, v) \<in> set (resolved COCOHUE)" by auto
    from inertD(1) [OF resolved_COCOHUE_inert this] have "c \<noteq> []" .
    moreover from c have "c \<in> set CONSTANT_KEYS"
      using resolved_COCOHUE_keys by (metis set_map)
    ultimately show "c \<noteq> [] \<and> \<not> contains c line"
      using False by blast
  qed
  from foldl_replace_none [OF this] False show ?thesis
    by (simp add: processConstants_def)
qed

text \<open>
  C3, as amended, for the target \<open>COCOHUE\<close>, the one target that has values. Whatever the line,
  \<open>processConstants\<close> returns a line in which no placeholder occurs. When the occurrences of
  placeholders in the line are separated, the line returned is the one the single pass gives:
  every occurrence replaced by the value of its constant, every other character kept, in order.
  And a line in which no placeholder occurs is returned as it is, for any target.
\<close>

theorem constants_substituted:
  "(\<exists>out. processConstants line COCOHUE = Inr out \<and> (\<forall>c \<in> set CONSTANT_KEYS. \<not> contains c out))
   \<and> (separated CONSTANT_KEYS line \<longrightarrow>
        processConstants line COCOHUE = Inr (substitute (resolved COCOHUE) line))
   \<and> ((\<forall>c \<in> set CONSTANT_KEYS. \<not> contains c line) \<longrightarrow> processConstants line target = Inr line)"
proof -
  let ?out = "foldl (\<lambda>s (c, v). replace s c v) line (resolved COCOHUE)"
  have none: "\<not> contains t ?out" if t: "t \<in> set CONSTANT_KEYS" for t
  proof
    assume c: "contains t ?out"
    from t obtain w where tw: "(t, w) \<in> set (resolved COCOHUE)"
      using resolved_COCOHUE_keys by (metis (no_types, lifting) image_iff set_map prod.collapse)
    note i = inertD [OF resolved_COCOHUE_inert]
    have "\<forall>(c, v) \<in> set (resolved COCOHUE). c \<noteq> [] \<and> CHR ''_'' \<notin> set v \<and> \<not> contains v t"
      using i(1) i(4) i(5) [OF _ tw] by blast
    from foldl_replace_contains [OF i(1) [OF tw] i(2) [OF tw] i(3) [OF tw] this c] tw
    show False by force
  qed
  have sep: "?out = substitute (resolved COCOHUE) line" if "separated CONSTANT_KEYS line"
    using that resolved_COCOHUE_inert
    by (intro foldl_replace_substitute) (simp_all add: resolved_COCOHUE_keys)
  have same: "processConstants line target = Inr line"
    if "\<forall>c \<in> set CONSTANT_KEYS. \<not> contains c line"
    using that by (simp add: processConstants_def)
  show ?thesis
    using none sep same by (simp add: processConstants_COCOHUE)
qed

theorem constants_substituted_witness:
  "processConstants ''title: \"__APP_NAME__ Setup\"'' COCOHUE
     = Inr ''title: \"CoCoHue - Hue Bridge Integration Setup\"''
   \<and> separated CONSTANT_KEYS ''title: \"__APP_NAME__ Setup\"''
   \<and> substitute (resolved COCOHUE) ''title: \"__APP_NAME__ Setup\"''
     = ''title: \"CoCoHue - Hue Bridge Integration Setup\"''"
proof -
  have s: "separated CONSTANT_KEYS ''title: \"__APP_NAME__ Setup\"''"
    by code_simp
  have e: "substitute (resolved COCOHUE) ''title: \"__APP_NAME__ Setup\"''
     = ''title: \"CoCoHue - Hue Bridge Integration Setup\"''"
    by code_simp
  from constants_substituted [of "''title: \"__APP_NAME__ Setup\"''"] s
  have "processConstants ''title: \"__APP_NAME__ Setup\"'' COCOHUE
     = Inr (substitute (resolved COCOHUE) ''title: \"__APP_NAME__ Setup\"'')"
    by blast
  with s e show ?thesis by simp
qed

text \<open>
  The claim as stated fails where two placeholders overlap. In the line below \<open>__NAMESPACE__\<close>
  occurs, at the start, and its last two underscores are the first two of \<open>__APP_NAME__\<close>. The
  loop replaces \<open>__APP_NAME__\<close> first, being first in the table, so \<open>__NAMESPACE__\<close> is not
  found afterwards: its value is nowhere in the result, and \<open>__NAMESPACE\<close> is left.
\<close>

theorem overlapping_placeholders_counterexample:
  "contains ''__NAMESPACE__'' ''__NAMESPACE__APP_NAME__''
   \<and> processConstants ''__NAMESPACE__APP_NAME__'' COCOHUE
       = Inr ''__NAMESPACECoCoHue - Hue Bridge Integration''
   \<and> getitem CONSTANTS ''__NAMESPACE__'' = Inr [(COCOHUE, ''RMoRobert'')]
   \<and> \<not> contains ''RMoRobert'' ''__NAMESPACECoCoHue - Hue Bridge Integration''"
  by code_simp

end
